theory Spec2Isabelle
  imports Complex_Main
begin

section \<open>Matrix functions of cupyx.scipy.linalg: khatri_rao, expm, cosm, sinm\<close>

text \<open>
  A shallow embedding of \<^verbatim>\<open>cupyx/scipy/linalg/_matfuncs.py\<close>. Scalars are exact: a real
  array holds values of type \<open>real\<close>, a complex array values of type \<open>complex\<close>, so rounding,
  infinities and NaN of the floating-point types are outside the model. A raised Python
  exception is the \<open>Inl\<close> branch of a sum type.
\<close>

subsection \<open>Errors\<close>

datatype error = ValueError string | IndexError string | LinAlgError string

definition bindE :: "error + 'a \<Rightarrow> ('a \<Rightarrow> error + 'b) \<Rightarrow> error + 'b" where
  "bindE m f = (case m of Inl e \<Rightarrow> Inl e | Inr x \<Rightarrow> f x)"

subsection \<open>Arrays\<close>

text \<open>
  An ndarray is its shape and its elements in row-major order. The scalar field (dtype) is
  the element type.
\<close>

record 'a ndarray =
  shape :: "nat list"
  data :: "'a list"

definition asize :: "'a ndarray \<Rightarrow> nat" where
  \<comment> \<open>\<^verbatim>\<open>a.size\<close>\<close>
  "asize a = prod_list (shape a)"

definition ndim :: "'a ndarray \<Rightarrow> nat" where
  \<comment> \<open>\<^verbatim>\<open>a.ndim\<close>\<close>
  "ndim a = length (shape a)"

definition valid :: "'a ndarray \<Rightarrow> bool" where
  "valid a = (length (data a) = prod_list (shape a))"

definition shape_at :: "'a ndarray \<Rightarrow> nat \<Rightarrow> error + nat" where
  \<comment> \<open>\<^verbatim>\<open>a.shape[i]\<close>: indexing a tuple out of range raises IndexError\<close>
  "shape_at a i =
     (if i < length (shape a) then Inr (shape a ! i)
      else Inl (IndexError ''tuple index out of range''))"

definition at2 :: "'a ndarray \<Rightarrow> nat \<Rightarrow> nat \<Rightarrow> 'a" where
  \<comment> \<open>element \<open>(i, j)\<close> of a two-dimensional array\<close>
  "at2 a i j = data a ! (i * (shape a ! 1) + j)"

definition tabulate2 :: "nat \<Rightarrow> nat \<Rightarrow> (nat \<Rightarrow> nat \<Rightarrow> 'a) \<Rightarrow> 'a ndarray" where
  \<comment> \<open>the \<open>r\<close> by \<open>c\<close> array whose element \<open>(i, j)\<close> is \<open>f i j\<close>\<close>
  "tabulate2 r c f =
     \<lparr>shape = [r, c], data = concat (map (\<lambda>i. map (f i) [0..<c]) [0..<r])\<rparr>"

definition zeros :: "nat list \<Rightarrow> 'a::zero ndarray" where
  \<comment> \<open>Modelled from the spec: \<^verbatim>\<open>cupy.zeros(shape, dtype)\<close>, the all-zero array of a shape.\<close>
  "zeros s = \<lparr>shape = s, data = replicate (prod_list s) 0\<rparr>"

subsection \<open>Elementwise arithmetic with broadcasting\<close>

text \<open>
  Modelled from the spec: the elementwise array primitives of cupy, with the standard
  broadcasting rules: shapes are aligned at their last axis, the shorter one is padded with
  ones on the left, and two extents are compatible when they are equal or one of them is 1.
\<close>

definition pad_shape :: "nat \<Rightarrow> nat list \<Rightarrow> nat list" where
  "pad_shape k s = replicate (k - length s) 1 @ s"

fun broadcast_shapes :: "nat list \<Rightarrow> nat list \<Rightarrow> nat list option" where
  "broadcast_shapes [] [] = Some []"
| "broadcast_shapes (m # ms) (n # ns) =
     (if m = n \<or> m = 1 \<or> n = 1
      then map_option ((#) (if m = 1 then n else m)) (broadcast_shapes ms ns)
      else None)"
| "broadcast_shapes _ _ = None"

definition block :: "nat list \<Rightarrow> nat \<Rightarrow> 'a list \<Rightarrow> 'a list" where
  \<comment> \<open>the \<open>i\<close>-th sub-array along the first axis, the remaining axes having shape \<open>ms\<close>\<close>
  "block ms i xs = take (prod_list ms) (drop (i * prod_list ms) xs)"

fun bc :: "('a \<Rightarrow> 'b \<Rightarrow> 'c) \<Rightarrow> nat list \<Rightarrow> 'a list \<Rightarrow> nat list \<Rightarrow> 'b list \<Rightarrow> 'c list" where
  "bc f (m # ms) xs (n # ns) ys =
     concat (map (\<lambda>i. bc f ms (block ms (if m = 1 then 0 else i) xs)
                            ns (block ns (if n = 1 then 0 else i) ys))
                 [0..<(if m = 1 then n else m)])"
| "bc f _ xs _ ys = map2 f xs ys"

definition elementwise :: "('a \<Rightarrow> 'b \<Rightarrow> 'c) \<Rightarrow> 'a ndarray \<Rightarrow> 'b ndarray \<Rightarrow> error + 'c ndarray" where
  "elementwise f a b =
     (let k = max (ndim a) (ndim b);
          sa = pad_shape k (shape a);
          sb = pad_shape k (shape b)
      in case broadcast_shapes sa sb of
           None \<Rightarrow> Inl (ValueError ''operands could not be broadcast together'')
         | Some s \<Rightarrow> Inr \<lparr>shape = s, data = bc f sa (data a) sb (data b)\<rparr>)"

definition add :: "'a::plus ndarray \<Rightarrow> 'a ndarray \<Rightarrow> error + 'a ndarray" where
  "add = elementwise (+)"

definition subtract :: "'a::minus ndarray \<Rightarrow> 'a ndarray \<Rightarrow> error + 'a ndarray" where
  "subtract = elementwise (-)"

definition multiply :: "'a::times ndarray \<Rightarrow> 'a ndarray \<Rightarrow> error + 'a ndarray" where
  "multiply = elementwise (*)"

definition mapa :: "('a \<Rightarrow> 'b) \<Rightarrow> 'a ndarray \<Rightarrow> 'b ndarray" where
  \<comment> \<open>a unary elementwise operation keeps the shape\<close>
  "mapa f a = \<lparr>shape = shape a, data = map f (data a)\<rparr>"

definition scalar_mul :: "'a::times \<Rightarrow> 'a ndarray \<Rightarrow> 'a ndarray" where
  \<comment> \<open>\<^verbatim>\<open>c * a\<close> for a scalar (or zero-dimensional array) \<open>c\<close>\<close>
  "scalar_mul c a = mapa (\<lambda>x. c * x) a"

definition scalar_div :: "'a::inverse ndarray \<Rightarrow> 'a \<Rightarrow> 'a ndarray" where
  \<comment> \<open>\<^verbatim>\<open>a / c\<close> for a scalar \<open>c\<close>\<close>
  "scalar_div a c = mapa (\<lambda>x. x / c) a"

definition negative :: "'a::uminus ndarray \<Rightarrow> 'a ndarray" where
  \<comment> \<open>\<^verbatim>\<open>-a\<close>\<close>
  "negative a = mapa uminus a"

definition asum :: "'a::monoid_add ndarray \<Rightarrow> 'a" where
  \<comment> \<open>\<^verbatim>\<open>a.sum()\<close>\<close>
  "asum a = sum_list (data a)"

definition diag :: "'a::zero ndarray \<Rightarrow> error + 'a ndarray" where
  \<comment> \<open>Modelled from the spec: \<^verbatim>\<open>cupy.diag\<close>, the diagonal entries of a two-dimensional array
      (the spec's trace shift sums them); a one-dimensional array is laid out on the diagonal
      of a square matrix, any other rank is refused.\<close>
  "diag a =
     (case shape a of
        [n] \<Rightarrow> Inr (tabulate2 n n (\<lambda>i j. if i = j then data a ! i else 0))
      | [r, c] \<Rightarrow> Inr \<lparr>shape = [min r c], data = map (\<lambda>i. at2 a i i) [0..<min r c]\<rparr>
      | _ \<Rightarrow> Inl (ValueError ''Input must be 1- or 2-d.''))"

subsection \<open>khatri_rao\<close>

definition assert_2d :: "'a ndarray \<Rightarrow> error + unit" where
  \<comment> \<open>Modelled from the spec: \<^verbatim>\<open>cupy.linalg._util._assert_2d\<close>, which reports an input that is
      not two-dimensional (the spec's DimensionError).\<close>
  "assert_2d a =
     (if ndim a \<noteq> 2 then Inl (LinAlgError ''Array must be two-dimensional'') else Inr ())"

definition newaxis_before_last :: "'a ndarray \<Rightarrow> 'a ndarray" where
  \<comment> \<open>\<^verbatim>\<open>a[..., :, cupy.newaxis, :]\<close>: a view with an axis of extent 1 before the last axis\<close>
  "newaxis_before_last a =
     \<lparr>shape = take (ndim a - 1) (shape a) @ [1] @ drop (ndim a - 1) (shape a), data = data a\<rparr>"

definition newaxis_before_last2 :: "'a ndarray \<Rightarrow> 'a ndarray" where
  \<comment> \<open>\<^verbatim>\<open>b[..., cupy.newaxis, :, :]\<close>: a view with an axis of extent 1 before the last two axes\<close>
  "newaxis_before_last2 a =
     \<lparr>shape = take (ndim a - 2) (shape a) @ [1] @ drop (ndim a - 2) (shape a), data = data a\<rparr>"

definition reshape_leading :: "'a ndarray \<Rightarrow> error + 'a ndarray" where
  \<comment> \<open>line 39, \<^verbatim>\<open>c.reshape((-1,) + c.shape[2:])\<close>: the trailing extents are kept and the
      extent written \<^verbatim>\<open>-1\<close> is inferred from the size, as the size divided by the product of
      the other extents; no extent fits when that product is 0 or does not divide the size,
      and the reshape raises. The elements keep their row-major order.\<close>
  "reshape_leading c =
     (let rest = drop 2 (shape c); known = prod_list rest
      in if known = 0 \<or> asize c mod known \<noteq> 0
         then Inl (ValueError ''cannot reshape array into the requested shape'')
         else Inr \<lparr>shape = (asize c div known) # rest, data = data c\<rparr>)"

definition khatri_rao :: "'a::times ndarray \<Rightarrow> 'a ndarray \<Rightarrow> error + 'a ndarray" where
  \<comment> \<open>lines 31 to 39\<close>
  "khatri_rao a b =
     bindE (assert_2d a) (\<lambda>_.
     bindE (assert_2d b) (\<lambda>_.
     bindE (shape_at a 1) (\<lambda>ka.
     bindE (shape_at b 1) (\<lambda>kb.
       if ka \<noteq> kb
       then Inl (ValueError ''The number of columns for both arrays should be equal.'')
       else
         bindE (multiply (newaxis_before_last a) (newaxis_before_last2 b)) (\<lambda>c.
         reshape_leading c)))))"

subsection \<open>The dense linear algebra collaborator\<close>

text \<open>
  expm consumes a dense linear algebra provider: matrix multiply, induced 1-norm, identity
  construction, linear system solve and the scalar exponential. The provider is a parameter
  of the model; \<open>cupy_linalg\<close> below is the exact provider the spec describes.
\<close>

record 'a linalg =
  matmul :: "'a ndarray \<Rightarrow> 'a ndarray \<Rightarrow> error + 'a ndarray"
  norm1 :: "'a ndarray \<Rightarrow> error + real"
  eye :: "nat \<Rightarrow> 'a ndarray"
  solve :: "'a ndarray \<Rightarrow> 'a ndarray \<Rightarrow> error + 'a ndarray"
  scalar_exp :: "'a \<Rightarrow> 'a"

definition mm :: "'a::semiring_0 ndarray \<Rightarrow> 'a ndarray \<Rightarrow> 'a ndarray" where
  \<comment> \<open>the matrix product of an \<open>r\<close> by \<open>k\<close> and a \<open>k\<close> by \<open>c\<close> array\<close>
  "mm a b =
     tabulate2 (shape a ! 0) (shape b ! 1)
       (\<lambda>i j. \<Sum>l\<leftarrow>[0..<shape a ! 1]. at2 a i l * at2 b l j)"

definition cupy_matmul :: "'a::semiring_0 ndarray \<Rightarrow> 'a ndarray \<Rightarrow> error + 'a ndarray" where
  \<comment> \<open>Modelled from the spec: matrix multiply \<^verbatim>\<open>a @ b\<close> of two-dimensional arrays, the only
      operands expm passes; the inner extents must agree.\<close>
  "cupy_matmul a b =
     (case (shape a, shape b) of
        ([r, k], [k', c]) \<Rightarrow>
          if k = k' then Inr (mm a b)
          else Inl (ValueError ''matmul: inner dimensions do not match'')
      | _ \<Rightarrow> Inl (ValueError ''matmul: operands are not two-dimensional''))"

definition cupy_norm1 :: "'a::real_normed_vector ndarray \<Rightarrow> error + real" where
  \<comment> \<open>Modelled from the spec: \<^verbatim>\<open>cupy.linalg.norm(A, ord=1)\<close>, the induced 1-norm of a matrix:
      the maximum over the columns of the sum of the absolute values of the column.\<close>
  "cupy_norm1 a =
     (case shape a of
        [r, c] \<Rightarrow>
          if c = 0 then Inl (ValueError ''zero-size array to reduction operation'')
          else Inr (Max (set (map (\<lambda>j. \<Sum>i\<leftarrow>[0..<r]. norm (at2 a i j)) [0..<c])))
      | _ \<Rightarrow> Inl (ValueError ''norm: operand is not two-dimensional''))"

definition cupy_eye :: "nat \<Rightarrow> 'a::zero_neq_one ndarray" where
  \<comment> \<open>Modelled from the spec: \<^verbatim>\<open>cupy.eye(n)\<close>, the \<open>n\<close> by \<open>n\<close> identity.\<close>
  "cupy_eye n = tabulate2 n n (\<lambda>i j. if i = j then 1 else 0)"

subsubsection \<open>Linear system solve\<close>

text \<open>
  Modelled from the spec: \<^verbatim>\<open>cupy.linalg.solve(a, b)\<close> is a general dense solver in exact
  arithmetic: Gaussian elimination with back substitution on the rows of \<open>a\<close>, each paired
  with its row of \<open>b\<close>. A column without a pivot means a singular matrix.
\<close>

type_synonym 'a equation = "'a list \<times> 'a list"

definition rows :: "'a ndarray \<Rightarrow> 'a list list" where
  \<comment> \<open>the rows of a two-dimensional array\<close>
  "rows a = map (\<lambda>i. block [shape a ! 1] i (data a)) [0..<shape a ! 0]"

definition of_rows :: "nat \<Rightarrow> nat \<Rightarrow> 'a list list \<Rightarrow> 'a ndarray" where
  "of_rows r c xss = \<lparr>shape = [r, c], data = concat xss\<rparr>"

definition vsub :: "'a::minus list \<Rightarrow> 'a list \<Rightarrow> 'a list" where
  "vsub u v = map2 (-) u v"

definition vadd :: "'a::plus list \<Rightarrow> 'a list \<Rightarrow> 'a list" where
  "vadd u v = map2 (+) u v"

definition vscale :: "'a::times \<Rightarrow> 'a list \<Rightarrow> 'a list" where
  "vscale c v = map (\<lambda>x. c * x) v"

fun lincomb :: "nat \<Rightarrow> 'a::semiring_0 list \<Rightarrow> 'a list list \<Rightarrow> 'a list" where
  \<comment> \<open>\<open>c\<^sub>1 X\<^sub>1 + \<dots> + c\<^sub>n X\<^sub>n\<close> for vectors of length \<open>m\<close>\<close>
  "lincomb m (c # cs) (x # xs) = vadd (vscale c x) (lincomb m cs xs)"
| "lincomb m _ _ = replicate m 0"

fun find_pivot :: "'a::zero equation list \<Rightarrow> (('a \<times> 'a list \<times> 'a list) \<times> 'a equation list) option" where
  \<comment> \<open>the first equation whose leading coefficient is not zero, and the other equations\<close>
  "find_pivot [] = None"
| "find_pivot (([], r) # es) = None"
| "find_pivot ((c # cs, r) # es) =
     (if c \<noteq> 0 then Some ((c, cs, r), es)
      else map_option (\<lambda>(p, rest). (p, (c # cs, r) # rest)) (find_pivot es))"

fun eliminate :: "'a::field list \<Rightarrow> 'a list \<Rightarrow> 'a equation \<Rightarrow> 'a equation" where
  \<comment> \<open>subtract the multiple of the normalised pivot row that clears the leading coefficient\<close>
  "eliminate cs' r' (d # ds, q) = (vsub ds (vscale d cs'), vsub q (vscale d r'))"
| "eliminate cs' r' ([], q) = ([], q)"

fun gauss :: "nat \<Rightarrow> nat \<Rightarrow> 'a::field equation list \<Rightarrow> 'a list list option" where
  \<comment> \<open>\<open>n\<close> unknowns, each a vector of length \<open>m\<close>\<close>
  "gauss m 0 eqs = Some []"
| "gauss m (Suc n) eqs =
     (case find_pivot eqs of
        None \<Rightarrow> None
      | Some ((c, cs, r), rest) \<Rightarrow>
          let cs' = map (\<lambda>x. x / c) cs;
              r' = map (\<lambda>x. x / c) r
          in (case gauss m n (map (eliminate cs' r') rest) of
                None \<Rightarrow> None
              | Some X \<Rightarrow> Some (vsub r' (lincomb m cs' X) # X)))"

definition cupy_solve :: "'a::field ndarray \<Rightarrow> 'a ndarray \<Rightarrow> error + 'a ndarray" where
  \<comment> \<open>Modelled from the spec: \<^verbatim>\<open>cupy.linalg.solve(a, b)\<close> for a square \<open>a\<close> and a matrix \<open>b\<close>
      with as many rows; a singular \<open>a\<close> is reported (the spec's Singular error).\<close>
  "cupy_solve a b =
     (case (shape a, shape b) of
        ([n, n'], [k, m]) \<Rightarrow>
          if n \<noteq> n' then Inl (LinAlgError ''Last 2 dimensions of the array must be square'')
          else if k \<noteq> n then Inl (ValueError ''solve: the right-hand side has the wrong shape'')
          else (case gauss m n (zip (rows a) (rows b)) of
                  None \<Rightarrow> Inl (LinAlgError ''Singular matrix'')
                | Some X \<Rightarrow> Inr (of_rows n m X))
      | _ \<Rightarrow> Inl (LinAlgError ''solve: operands are not two-dimensional''))"

definition cupy_linalg :: "'a::{real_normed_field, banach} linalg" where
  "cupy_linalg =
     \<lparr>matmul = cupy_matmul, norm1 = cupy_norm1, eye = cupy_eye, solve = cupy_solve,
      scalar_exp = exp\<rparr>"

definition failing_linalg :: "'a linalg" where
  \<comment> \<open>a provider whose every fallible operation fails: a computation that succeeds with it
      has not consulted the provider\<close>
  "failing_linalg =
     \<lparr>matmul = (\<lambda>_ _. Inl (LinAlgError ''unavailable'')),
      norm1 = (\<lambda>_. Inl (LinAlgError ''unavailable'')),
      eye = (\<lambda>_. \<lparr>shape = [], data = []\<rparr>),
      solve = (\<lambda>_ _. Inl (LinAlgError ''unavailable'')),
      scalar_exp = (\<lambda>x. x)\<rparr>"

subsection \<open>expm\<close>

definition pade_b :: "real list" where
  \<comment> \<open>the module constant \<^verbatim>\<open>b\<close>, lines 43 to 56\<close>
  "pade_b =
     [64764752532480000, 32382376266240000, 7771770303897600, 1187353796428800,
      129060195264000, 10559470521600, 670442572800, 33522128640, 1323241920,
      40840800, 960960, 16380, 182, 1]"

definition th13 :: real where
  \<comment> \<open>the module constant \<^verbatim>\<open>th13 = 5.37\<close>, line 58: the value of the literal is the double
      nearest to 5.37, which is \<open>6046082499744891 / 2^50\<close>, a little above 537/100\<close>
  "th13 = 6046082499744891 / 1125899906842624"

definition expm_inner ::
  "'a::real_normed_field ndarray \<Rightarrow> 'a ndarray \<Rightarrow> 'a ndarray \<Rightarrow> 'a ndarray \<Rightarrow> 'a ndarray \<Rightarrow>
   real list \<Rightarrow> error + ('a ndarray \<times> 'a ndarray \<times> 'a ndarray \<times> 'a ndarray)" where
  \<comment> \<open>\<^verbatim>\<open>_expm_inner\<close>, lines 129 to 136; \<^verbatim>\<open>b[13]\<close> is read first and raises IndexError on a
      table that is too short\<close>
  "expm_inner E A A2 A4 A6 b =
     (if length b \<le> 13 then Inl (IndexError ''index 13 is out of bounds'')
      else
        bindE (add (scalar_mul (of_real (b ! 13)) A6) (scalar_mul (of_real (b ! 11)) A4)) (\<lambda>t.
        bindE (add t (scalar_mul (of_real (b ! 9)) A2)) (\<lambda>u1.
        bindE (add (scalar_mul (of_real (b ! 7)) A6) (scalar_mul (of_real (b ! 5)) A4)) (\<lambda>t.
        bindE (add t (scalar_mul (of_real (b ! 3)) A2)) (\<lambda>t.
        bindE (add t (scalar_mul (of_real (b ! 1)) E)) (\<lambda>u2.
        bindE (add (scalar_mul (of_real (b ! 12)) A6) (scalar_mul (of_real (b ! 10)) A4)) (\<lambda>t.
        bindE (add t (scalar_mul (of_real (b ! 8)) A)) (\<lambda>v1.
        bindE (add (scalar_mul (of_real (b ! 6)) A6) (scalar_mul (of_real (b ! 4)) A4)) (\<lambda>t.
        bindE (add t (scalar_mul (of_real (b ! 2)) A2)) (\<lambda>t.
        bindE (add t (scalar_mul (of_real (b ! 0)) E)) (\<lambda>v2.
        Inr (u1, u2, v1, v2))))))))))))"

definition reduce_norm ::
  "'a::real_normed_field linalg \<Rightarrow> 'a ndarray \<Rightarrow> error + ('a \<times> 'a ndarray)" where
  \<comment> \<open>lines 91 to 95: the trace shift \<open>mu\<close> and \<open>A = a - eye(n) * mu\<close>\<close>
  "reduce_norm L a =
     bindE (shape_at a 0) (\<lambda>n.
     bindE (diag a) (\<lambda>d.
       let mu = asum d / of_nat n in
       bindE (subtract a (scalar_mul mu (eye L n))) (\<lambda>A.
       Inr (mu, A))))"

definition scale_exponent :: "real \<Rightarrow> int" where
  \<comment> \<open>lines 100 and 101\<close>
  "scale_exponent nrmA =
     (let scale = nrmA > th13
      in if scale then \<lceil>log 2 (nrmA / th13)\<rceil> + 1 else 1)"

definition scale_factor ::
  "'a::real_normed_field linalg \<Rightarrow> 'a ndarray \<Rightarrow> error + (int \<times> 'a ndarray)" where
  \<comment> \<open>lines 98 to 103: the scale exponent \<open>s\<close> and \<open>A / 2**s\<close>\<close>
  "scale_factor L A =
     bindE (norm1 L A) (\<lambda>nrmA.
       let s = scale_exponent nrmA in
       Inr (s, scalar_div A (2 powi s)))"

definition pade13 :: "'a::real_normed_field linalg \<Rightarrow> 'a ndarray \<Rightarrow> error + 'a ndarray" where
  \<comment> \<open>lines 106 to 116: the [13/13] Pade approximant \<open>r13\<close> of the scaled matrix\<close>
  "pade13 L A =
     bindE (matmul L A A) (\<lambda>A2.
     bindE (matmul L A2 A2) (\<lambda>A4.
     bindE (matmul L A2 A4) (\<lambda>A6.
     bindE (shape_at A 0) (\<lambda>n.
       let E = eye L n in
       bindE (expm_inner E A A2 A4 A6 pade_b) (\<lambda>(u1, u2, v1, v2).
       bindE (matmul L A6 u1) (\<lambda>t.
       bindE (add t u2) (\<lambda>t.
       bindE (matmul L A t) (\<lambda>u.
       bindE (matmul L A6 v1) (\<lambda>t.
       bindE (add t v2) (\<lambda>v.
       bindE (add (negative u) v) (\<lambda>lhs.
       bindE (add u v) (\<lambda>rhs.
       solve L lhs rhs))))))))))))"

definition py_range :: "int \<Rightarrow> int list" where
  \<comment> \<open>\<^verbatim>\<open>range(s)\<close>\<close>
  "py_range s = [0..s - 1]"

fun squaring :: "'a linalg \<Rightarrow> int list \<Rightarrow> 'a ndarray \<Rightarrow> error + 'a ndarray" where
  \<comment> \<open>lines 119 to 121: one \<^verbatim>\<open>x = x @ x\<close> for each element of the range\<close>
  "squaring L [] x = Inr x"
| "squaring L (_ # rest) x = bindE (matmul L x x) (squaring L rest)"

definition expm :: "'a::real_normed_field linalg \<Rightarrow> 'a ndarray \<Rightarrow> error + 'a ndarray" where
  \<comment> \<open>lines 88 to 126; the last step is \<^verbatim>\<open>x *= exp(mu)\<close> of line 124, with the exponential
      of the scalar field\<close>
  "expm L a =
     (if asize a = 0 then Inr (zeros [0, 0])
      else
        bindE (reduce_norm L a) (\<lambda>(mu, A).
        bindE (scale_factor L A) (\<lambda>(s, A).
        bindE (pade13 L A) (\<lambda>r13.
        bindE (squaring L (py_range s) r13) (\<lambda>x.
        Inr (scalar_mul (scalar_exp L mu) x))))))"

subsection \<open>cosm and sinm\<close>

datatype array = RealArray "real ndarray" | ComplexArray "complex ndarray"

definition iscomplexobj :: "array \<Rightarrow> bool" where
  "iscomplexobj a = (case a of ComplexArray _ \<Rightarrow> True | RealArray _ \<Rightarrow> False)"

definition cmul :: "complex \<Rightarrow> array \<Rightarrow> complex ndarray" where
  \<comment> \<open>\<^verbatim>\<open>z * a\<close> for a complex scalar \<open>z\<close>: the product is a complex array\<close>
  "cmul z a =
     (case a of
        RealArray x \<Rightarrow> mapa (\<lambda>t. z * complex_of_real t) x
      | ComplexArray x \<Rightarrow> scalar_mul z x)"

definition cosm :: "complex linalg \<Rightarrow> array \<Rightarrow> error + array" where
  \<comment> \<open>lines 155 to 158\<close>
  "cosm L a =
     (if iscomplexobj a then
        bindE (expm L (cmul \<i> a)) (\<lambda>x.
        bindE (expm L (cmul (- \<i>) a)) (\<lambda>y.
        bindE (add x y) (\<lambda>t.
        Inr (ComplexArray (scalar_mul (of_real (1 / 2)) t)))))
      else
        bindE (expm L (cmul \<i> a)) (\<lambda>x. Inr (RealArray (mapa Re x))))"

definition sinm :: "complex linalg \<Rightarrow> array \<Rightarrow> error + array" where
  \<comment> \<open>lines 176 to 179\<close>
  "sinm L a =
     (if iscomplexobj a then
        bindE (expm L (cmul \<i> a)) (\<lambda>x.
        bindE (expm L (cmul (- \<i>) a)) (\<lambda>y.
        bindE (subtract x y) (\<lambda>t.
        Inr (ComplexArray (scalar_mul (of_real (- (1 / 2))) t)))))
      else
        bindE (expm L (cmul \<i> a)) (\<lambda>x. Inr (RealArray (mapa Im x))))"


definition array_shape :: "array \<Rightarrow> nat list" where
  "array_shape x = (case x of RealArray a \<Rightarrow> shape a | ComplexArray a \<Rightarrow> shape a)"

subsection \<open>Columns and outer products\<close>

definition column :: "'a ndarray \<Rightarrow> nat \<Rightarrow> 'a list" where
  \<comment> \<open>column \<open>j\<close> of a two-dimensional array, from the first row to the last\<close>
  "column a j = map (\<lambda>i. at2 a i j) [0..<shape a ! 0]"

definition outer_flat :: "'a::times list \<Rightarrow> 'a list \<Rightarrow> 'a list" where
  \<comment> \<open>the outer product of two vectors, flattened in row-major order\<close>
  "outer_flat u v = concat (map (\<lambda>x. map (\<lambda>y. x * y) v) u)"

subsection \<open>Pure matrix arithmetic\<close>

definition pointwise :: "('a \<Rightarrow> 'b \<Rightarrow> 'c) \<Rightarrow> 'a ndarray \<Rightarrow> 'b ndarray \<Rightarrow> 'c ndarray" where
  \<comment> \<open>the elementwise combination of two arrays of one shape\<close>
  "pointwise f a b = \<lparr>shape = shape a, data = map2 f (data a) (data b)\<rparr>"

subsection \<open>Systems of linear equations\<close>

text \<open>
  The notions the correctness of the solver is stated in: \<open>dotj cs Y j\<close> is component \<open>j\<close>
  of the combination of the vectors \<open>Y\<close> with coefficients \<open>cs\<close>, and \<open>sol m eqs Y\<close> says that
  the vectors \<open>Y\<close> satisfy every equation.
\<close>

definition dotj :: "'a::semiring_0 list \<Rightarrow> 'a list list \<Rightarrow> nat \<Rightarrow> 'a" where
  "dotj cs Y j = (\<Sum>(c, y)\<leftarrow>zip cs Y. c * y ! j)"

definition sol :: "nat \<Rightarrow> 'a::semiring_0 equation list \<Rightarrow> 'a list list \<Rightarrow> bool" where
  "sol m eqs Y = (\<forall>(cs, r) \<in> set eqs. lincomb m cs Y = r)"

definition wf_eqs :: "nat \<Rightarrow> nat \<Rightarrow> 'a equation list \<Rightarrow> bool" where
  "wf_eqs m n eqs = (\<forall>(cs, r) \<in> set eqs. length cs = n \<and> length r = m)"

definition wf_vecs :: "nat \<Rightarrow> nat \<Rightarrow> 'a list list \<Rightarrow> bool" where
  "wf_vecs m n Y = (length Y = n \<and> (\<forall>y \<in> set Y. length y = m))"

section \<open>Properties\<close>

subsection \<open>The error monad\<close>

lemma bindE_Inl [simp]: "bindE (Inl e) f = Inl e"
  by (simp add: bindE_def)

lemma bindE_Inr [simp]: "bindE (Inr x) f = f x"
  by (simp add: bindE_def)

lemma bindE_return [simp]: "bindE m Inr = m"
  by (simp add: bindE_def split: sum.splits)


subsection \<open>Empty inputs of expm\<close>

text \<open>
  Claim C7. On a 0 by 0 input expm returns the 0 by 0 array of the same element type and
  raises nothing. The result is the same for every linear algebra provider, so no step of
  the algorithm and no operation of the provider takes part: the witness runs expm with a
  provider all of whose operations fail.
\<close>

theorem expm_0x0: "shape a = [0, 0] \<Longrightarrow> expm L a = Inr \<lparr>shape = [0, 0], data = []\<rparr>"
  by (simp add: expm_def asize_def zeros_def)

theorem expm_0x0_witness:
  "expm failing_linalg \<lparr>shape = [0, 0], data = ([] :: real list)\<rparr>
   = Inr \<lparr>shape = [0, 0], data = []\<rparr>"
  using expm_0x0 [of "\<lparr>shape = [0, 0], data = ([] :: real list)\<rparr>" failing_linalg] by simp

text \<open>
  Claim C10. Every input with no elements, square or not, makes expm return the 0 by 0
  array of the input's element type: the size test of line 88 comes before any use of the
  shape, so an empty non-square input never reaches a shape error.
\<close>

theorem expm_empty:
  "asize a = 0 \<Longrightarrow> expm cupy_linalg a = Inr \<lparr>shape = [0, 0], data = []\<rparr>"
  by (simp add: expm_def zeros_def)

theorem expm_empty_witness:
  "expm cupy_linalg \<lparr>shape = [0, 3], data = ([] :: real list)\<rparr>
     = Inr \<lparr>shape = [0, 0], data = []\<rparr>
   \<and> expm cupy_linalg \<lparr>shape = [2, 0], data = ([] :: complex list)\<rparr>
     = Inr \<lparr>shape = [0, 0], data = []\<rparr>"
  using expm_empty [of "\<lparr>shape = [0, 3], data = ([] :: real list)\<rparr>"]
    expm_empty [of "\<lparr>shape = [2, 0], data = ([] :: complex list)\<rparr>"]
  by (simp add: asize_def)

subsection \<open>The checks of khatri_rao\<close>

text \<open>
  Claim C8. Two two-dimensional inputs with different numbers of columns make khatri_rao
  fail with the ValueError of line 35, whose message names the column counts; the result is
  the error alone, no array.
\<close>

theorem khatri_rao_columns:
  "ndim a = 2 \<Longrightarrow> ndim b = 2 \<Longrightarrow> shape a ! 1 \<noteq> shape b ! 1 \<Longrightarrow>
   khatri_rao a b = Inl (ValueError ''The number of columns for both arrays should be equal.'')"
  by (simp add: khatri_rao_def assert_2d_def shape_at_def ndim_def)

theorem khatri_rao_columns_witness:
  "khatri_rao \<lparr>shape = [3, 2], data = [1, 2, 3, 4, 5, 6 :: int]\<rparr>
              \<lparr>shape = [2, 3], data = [1, 2, 3, 4, 5, 6]\<rparr>
   = Inl (ValueError ''The number of columns for both arrays should be equal.'')"
  using khatri_rao_columns [of "\<lparr>shape = [3, 2], data = [1, 2, 3, 4, 5, 6 :: int]\<rparr>"
      "\<lparr>shape = [2, 3], data = [1, 2, 3, 4, 5, 6]\<rparr>"]
  by (simp add: ndim_def)

text \<open>
  Claim C9 says that khatri_rao accepts inputs of rank higher than 2 and broadcasts their
  leading axes. It does not: lines 31 and 32 pass both inputs to \<^verbatim>\<open>_assert_2d\<close> first.
  A rank 3 input is refused there.
\<close>

theorem khatri_rao_rank3_counterexample:
  "khatri_rao \<lparr>shape = [1, 2, 2], data = [1, 0, 0, 1 :: int]\<rparr>
              \<lparr>shape = [1, 2, 2], data = [1, 2, 3, 4]\<rparr>
   = Inl (LinAlgError ''Array must be two-dimensional'')"
  by (simp add: khatri_rao_def assert_2d_def ndim_def)

text \<open>
  Claim C9, amended. khatri_rao accepts two-dimensional inputs only: when either input has
  another rank, higher ranks included, the call fails at \<^verbatim>\<open>_assert_2d\<close> with the error for
  an input that is not two-dimensional, before any product is formed.
\<close>

theorem khatri_rao_rank:
  "ndim a \<noteq> 2 \<or> ndim b \<noteq> 2 \<Longrightarrow>
   khatri_rao a b = Inl (LinAlgError ''Array must be two-dimensional'')"
  by (auto simp add: khatri_rao_def assert_2d_def)

theorem khatri_rao_rank_witness:
  "khatri_rao \<lparr>shape = [2, 2, 2], data = [1, 0, 0, 1, 1, 0, 0, 1 :: int]\<rparr>
              \<lparr>shape = [2, 2], data = [1, 2, 3, 4]\<rparr>
   = Inl (LinAlgError ''Array must be two-dimensional'')"
  using khatri_rao_rank [of "\<lparr>shape = [2, 2, 2], data = [1, 0, 0, 1, 1, 0, 0, 1 :: int]\<rparr>"
      "\<lparr>shape = [2, 2], data = [1, 2, 3, 4]\<rparr>"]
  by (simp add: ndim_def)

subsection \<open>The scale exponent and the squaring loop\<close>





subsection \<open>Shapes\<close>

lemma shape_mapa [simp]: "shape (mapa f a) = shape a"
  by (simp add: mapa_def)

lemma data_mapa [simp]: "data (mapa f a) = map f (data a)"
  by (simp add: mapa_def)

lemma shape_scalar_mul [simp]: "shape (scalar_mul c a) = shape a"
  by (simp add: scalar_mul_def)

lemma shape_scalar_div [simp]: "shape (scalar_div a c) = shape a"
  by (simp add: scalar_div_def)

lemma shape_negative [simp]: "shape (negative a) = shape a"
  by (simp add: negative_def)

lemma shape_tabulate2 [simp]: "shape (tabulate2 r c f) = [r, c]"
  by (simp add: tabulate2_def)

lemma shape_cupy_eye [simp]: "shape (cupy_eye n) = [n, n]"
  by (simp add: cupy_eye_def)


subsection \<open>Non-square inputs of expm, cosm and sinm\<close>


lemma shape_cmul [simp]: "shape (cmul z x) = array_shape x"
  by (simp add: cmul_def array_shape_def split: array.splits)




subsection \<open>Blocks of a row-major array and broadcasting\<close>

lemma concat_blocks: "concat (map (\<lambda>i. block ms i zs) [0..<m]) = take (m * prod_list ms) zs"
proof (induction m)
  case 0
  then show ?case by simp
next
  case (Suc m)
  have "take (m * prod_list ms) zs @ block ms m zs = take (m * prod_list ms + prod_list ms) zs"
    by (simp add: block_def take_add)
  then show ?case using Suc by (simp add: add.commute)
qed

lemma length_block: "(Suc i) * prod_list ms \<le> length xs \<Longrightarrow> length (block ms i xs) = prod_list ms"
  by (simp add: block_def)

lemma block_map2: "block ms i (map2 f xs ys) = map2 f (block ms i xs) (block ms i ys)"
  by (simp add: block_def take_zip drop_zip take_map drop_map)

lemma bc_same_shape:
  "length xs = prod_list s \<Longrightarrow> length ys = prod_list s \<Longrightarrow> bc f s xs s ys = map2 f xs ys"
proof (induction s arbitrary: xs ys)
  case Nil
  then show ?case by simp
next
  case (Cons m ms)
  have blk: "bc f ms (block ms (if m = 1 then 0 else i) xs) ms (block ms (if m = 1 then 0 else i) ys)
      = block ms i (map2 f xs ys)" if "i \<in> set [0..<m]" for i
  proof -
    from that have that: "i < m" by simp
    have i: "(if m = 1 then 0 else i) = i" using that by auto
    have "Suc i * prod_list ms \<le> m * prod_list ms"
      using that by (intro mult_le_mono1) simp
    then have "length (block ms i xs) = prod_list ms" "length (block ms i ys) = prod_list ms"
      using Cons.prems by (simp_all add: length_block)
    then show ?thesis unfolding i by (simp add: Cons.IH block_map2)
  qed
  have "bc f (m # ms) xs (m # ms) ys
      = concat (map (\<lambda>i. bc f ms (block ms (if m = 1 then 0 else i) xs)
                               ms (block ms (if m = 1 then 0 else i) ys)) [0..<m])"
    by simp
  also have "\<dots> = concat (map (\<lambda>i. block ms i (map2 f xs ys)) [0..<m])"
    by (rule arg_cong [where f = concat], rule map_cong [OF refl], rule blk)
  also have "\<dots> = map2 f xs ys"
    using Cons.prems by (simp add: concat_blocks)
  finally show ?case .
qed

lemma nth_concat_uniform:
  "\<forall>r \<in> set R. length r = k \<Longrightarrow> q < length R \<Longrightarrow> j < k \<Longrightarrow> concat R ! (q * k + j) = R ! q ! j"
proof (induction R arbitrary: q)
  case Nil
  then show ?case by simp
next
  case (Cons r R)
  show ?case
  proof (cases q)
    case 0
    then show ?thesis using Cons.prems by (simp add: nth_append)
  next
    case (Suc q')
    then show ?thesis using Cons.prems Cons.IH [of q'] by (simp add: nth_append)
  qed
qed

lemma length_concat_uniform:
  "\<forall>r \<in> set R. length r = k \<Longrightarrow> length (concat R) = length R * k"
  by (induction R) simp_all

lemma at2_tabulate2: "i < r \<Longrightarrow> j < c \<Longrightarrow> at2 (tabulate2 r c f) i j = f i j"
  using nth_concat_uniform [of "map (\<lambda>i. map (f i) [0..<c]) [0..<r]" c i j]
  by (simp add: at2_def tabulate2_def)

lemma valid_tabulate2 [simp]: "valid (tabulate2 r c f)"
  using length_concat_uniform [of "map (\<lambda>i. map (f i) [0..<c]) [0..<r]" c]
  by (simp add: valid_def tabulate2_def)


subsection \<open>The product of khatri_rao\<close>

lemma block_0_all: "length xs = prod_list ms \<Longrightarrow> block ms 0 xs = xs"
  by (simp add: block_def)

lemma length_block_lt:
  "i < m \<Longrightarrow> length xs = m * prod_list ms \<Longrightarrow> length (block ms i xs) = prod_list ms"
proof -
  assume "i < m" and l: "length xs = m * prod_list ms"
  then have "Suc i * prod_list ms \<le> m * prod_list ms" by (intro mult_le_mono1) simp
  then show ?thesis using l by (simp add: length_block)
qed

lemma bc_row_bcast:
  assumes X: "length X = k" and Y: "length Y = n2 * k"
  shows "bc f [1, k] X [n2, k] Y = concat (map (\<lambda>i'. map2 f X (block [k] i' Y)) [0..<n2])"
proof -
  have blk: "bc f [k] (block [k] (if (1::nat) = 1 then 0 else i') X)
                  [k] (block [k] (if n2 = 1 then 0 else i') Y)
      = map2 f X (block [k] i' Y)" if "i' \<in> set [0..<n2]" for i'
  proof -
    from that have lt: "i' < n2" by simp
    have i: "(if n2 = 1 then 0 else i') = i'" using lt by auto
    have "length (block [k] i' Y) = k" using length_block_lt [OF lt, of Y "[k]"] Y by simp
    then show ?thesis unfolding i using X by (simp add: bc_same_shape block_0_all del: bc.simps)
  qed
  have "bc f [1, k] X [n2, k] Y
      = concat (map (\<lambda>i'. bc f [k] (block [k] (if (1::nat) = 1 then 0 else i') X)
                               [k] (block [k] (if n2 = 1 then 0 else i') Y)) [0..<n2])"
    by simp
  also have "\<dots> = concat (map (\<lambda>i'. map2 f X (block [k] i' Y)) [0..<n2])"
    by (rule arg_cong [where f = concat], rule map_cong [OF refl], rule blk)
  finally show ?thesis .
qed

lemma bc_outer:
  assumes xs: "length xs = n1 * k" and ys: "length ys = n2 * k"
  shows "bc f [n1, 1, k] xs [1, n2, k] ys
      = concat (map (\<lambda>i. concat (map (\<lambda>i'. map2 f (block [k] i xs) (block [k] i' ys)) [0..<n2]))
                    [0..<n1])"
proof -
  have blk: "bc f [1, k] (block [1, k] (if n1 = 1 then 0 else i) xs)
                  [n2, k] (block [n2, k] (if (1::nat) = 1 then 0 else i) ys)
      = concat (map (\<lambda>i'. map2 f (block [k] i xs) (block [k] i' ys)) [0..<n2])"
    if "i \<in> set [0..<n1]" for i
  proof -
    from that have lt: "i < n1" by simp
    have i: "(if n1 = 1 then 0 else i) = i" using lt by auto
    have b1: "block [1, k] i xs = block [k] i xs" by (simp add: block_def)
    have l: "length (block [k] i xs) = k" using length_block_lt [OF lt, of xs "[k]"] xs by simp
    have b2: "block [n2, k] 0 ys = ys" using ys by (simp add: block_0_all)
    show ?thesis unfolding i b1 using bc_row_bcast [OF l ys, of f] b2 by simp
  qed
  have "bc f [n1, 1, k] xs [1, n2, k] ys
      = concat (map (\<lambda>i. bc f [1, k] (block [1, k] (if n1 = 1 then 0 else i) xs)
                              [n2, k] (block [n2, k] (if (1::nat) = 1 then 0 else i) ys))
                    [0..<(if n1 = 1 then 1 else n1)])"
    by (simp only: bc.simps)
  also have "(if n1 = 1 then 1 else n1) = n1" by simp
  also have "concat (map (\<lambda>i. bc f [1, k] (block [1, k] (if n1 = 1 then 0 else i) xs)
                              [n2, k] (block [n2, k] (if (1::nat) = 1 then 0 else i) ys)) [0..<n1])
      = concat (map (\<lambda>i. concat (map (\<lambda>i'. map2 f (block [k] i xs) (block [k] i' ys)) [0..<n2]))
                    [0..<n1])"
    by (rule arg_cong [where f = concat], rule map_cong [OF refl], rule blk)
  finally show ?thesis .
qed

lemma khatri_rao_data:
  assumes va: "valid a" and sa: "shape a = [n1, k]" and vb: "valid b" and sb: "shape b = [n2, k]"
    and k: "0 < k"
  shows "khatri_rao a b
      = Inr \<lparr>shape = [n1 * n2, k],
             data = concat (map (\<lambda>i. concat (map (\<lambda>i'. map2 (*) (block [k] i (data a))
                                                                  (block [k] i' (data b)))
                                                [0..<n2]))
                                [0..<n1])\<rparr>"
proof -
  have xs: "length (data a) = n1 * k" using va sa by (simp add: valid_def)
  have ys: "length (data b) = n2 * k" using vb sb by (simp add: valid_def)
  have na: "newaxis_before_last a = \<lparr>shape = [n1, 1, k], data = data a\<rparr>"
    using sa by (simp add: newaxis_before_last_def ndim_def)
  have nb: "newaxis_before_last2 b = \<lparr>shape = [1, n2, k], data = data b\<rparr>"
    using sb by (simp add: newaxis_before_last2_def ndim_def)
  have m: "multiply (newaxis_before_last a) (newaxis_before_last2 b)
      = Inr \<lparr>shape = [n1, n2, k], data = bc (*) [n1, 1, k] (data a) [1, n2, k] (data b)\<rparr>"
    unfolding na nb by (simp add: multiply_def elementwise_def ndim_def pad_shape_def del: bc.simps)
  note m2 = m [unfolded bc_outer [OF xs ys]]
  show ?thesis
    using sa sb k
    by (simp add: khatri_rao_def assert_2d_def ndim_def shape_at_def m2 reshape_leading_def
        asize_def Let_def)
qed


lemma block_nth:
  "i < m \<Longrightarrow> j < k \<Longrightarrow> length xs = m * k \<Longrightarrow> block [k] i xs ! j = xs ! (i * k + j)"
proof -
  assume i: "i < m" and j: "j < k" and l: "length xs = m * k"
  have "Suc i * k \<le> m * k" using i by (intro mult_le_mono1) simp
  then have "i * k + j < length xs" using j l by simp
  then show ?thesis using j by (simp add: block_def)
qed

lemma columns_of_rows:
  assumes R: "\<forall>r \<in> set R. length r = k" and j: "j < k"
  shows "map (\<lambda>q. concat R ! (q * k + j)) [0..<length R] = map (\<lambda>r. r ! j) R"
proof -
  have "map (\<lambda>q. concat R ! (q * k + j)) [0..<length R] = map (\<lambda>q. R ! q ! j) [0..<length R]"
    by (rule map_cong [OF refl]) (simp add: nth_concat_uniform [OF R _ j])
  also have "\<dots> = map (\<lambda>r. r ! j) (map (\<lambda>q. R ! q) [0..<length R])"
    by (simp add: o_def)
  also have "\<dots> = map (\<lambda>r. r ! j) R"
    by (simp only: map_nth)
  finally show ?thesis .
qed

text \<open>
  Claim C4 says that the product has shape \<open>(n1 * n2, k)\<close> for every common column count
  \<open>k\<close>. For \<open>k = 0\<close> it has no shape at all: the broadcast product has shape \<open>(n1, n2, 0)\<close>,
  and the reshape of line 39 cannot infer the extent \<^verbatim>\<open>-1\<close> next to an extent 0.
\<close>

theorem khatri_rao_no_columns_counterexample:
  "khatri_rao \<lparr>shape = [2, 0], data = ([] :: int list)\<rparr> \<lparr>shape = [3, 0], data = []\<rparr>
   = Inl (ValueError ''cannot reshape array into the requested shape'')"
  by (simp add: khatri_rao_def assert_2d_def ndim_def shape_at_def multiply_def elementwise_def
      pad_shape_def reshape_leading_def newaxis_before_last_def newaxis_before_last2_def
      asize_def Let_def)

text \<open>
  Claim C4, amended. For two-dimensional inputs of shapes \<open>(n1, k)\<close> and \<open>(n2, k)\<close> with at
  least one column, khatri_rao returns an array of shape \<open>(n1 * n2, k)\<close> whose column \<open>j\<close> is
  the flattened outer product of column \<open>j\<close> of \<open>a\<close> and column \<open>j\<close> of \<open>b\<close>; the columns
  keep their order. The example of the spec has the columns \<open>[1, 3, 0, 0]\<close> and
  \<open>[0, 0, 2, 4]\<close>.
\<close>

theorem khatri_rao_product:
  assumes va: "valid a" and sa: "shape a = [n1, k]" and vb: "valid b" and sb: "shape b = [n2, k]"
    and k: "0 < k"
  shows "\<exists>c. khatri_rao a b = Inr c \<and> shape c = [n1 * n2, k] \<and> valid c
           \<and> (\<forall>j < k. column c j = outer_flat (column a j) (column b j))"
proof -
  define row where "row = (\<lambda>i i'. map2 (*) (block [k] i (data a)) (block [k] i' (data b)))"
  define R where "R = concat (map (\<lambda>i. map (row i) [0..<n2]) [0..<n1])"
  define c where "c = \<lparr>shape = [n1 * n2, k], data = concat R\<rparr>"
  have xs: "length (data a) = n1 * k" using va sa by (simp add: valid_def)
  have ys: "length (data b) = n2 * k" using vb sb by (simp add: valid_def)
  have cR: "concat R = concat (map (\<lambda>i. concat (map (row i) [0..<n2])) [0..<n1])"
    unfolding R_def by (induction n1) simp_all
  have kr: "khatri_rao a b = Inr c"
    unfolding c_def cR row_def by (rule khatri_rao_data [OF va sa vb sb k])
  have lrow: "length (row i i') = k" if "i < n1" "i' < n2" for i i'
    using that length_block_lt [of i n1 "data a" "[k]"] length_block_lt [of i' n2 "data b" "[k]"] xs ys
    by (simp add: row_def)
  have lR: "length R = n1 * n2"
    unfolding R_def by (induction n1) simp_all
  have uR: "\<forall>r \<in> set R. length r = k"
    unfolding R_def using lrow by auto
  have vc: "valid c"
    using length_concat_uniform [OF uR] lR by (simp add: valid_def c_def)
  have col: "column c j = outer_flat (column a j) (column b j)" if j: "j < k" for j
  proof -
    have "column c j = map (\<lambda>q. concat R ! (q * k + j)) [0..<length R]"
      by (simp add: column_def c_def at2_def lR)
    also have "\<dots> = map (\<lambda>r. r ! j) R"
      by (rule columns_of_rows [OF uR j])
    also have "\<dots> = concat (map (\<lambda>i. map (\<lambda>i'. row i i' ! j) [0..<n2]) [0..<n1])"
      unfolding R_def by (simp add: map_concat o_def)
    also have "\<dots> = concat (map (\<lambda>i. map (\<lambda>i'. at2 a i j * at2 b i' j) [0..<n2]) [0..<n1])"
    proof (rule arg_cong [where f = concat], rule map_cong [OF refl], rule map_cong [OF refl])
      fix i i' assume "i \<in> set [0..<n1]" "i' \<in> set [0..<n2]"
      then have i: "i < n1" and i': "i' < n2" by simp_all
      have "length (block [k] i (data a)) = k" "length (block [k] i' (data b)) = k"
        using length_block_lt [OF i, of "data a" "[k]"] length_block_lt [OF i', of "data b" "[k]"] xs ys
        by simp_all
      then have "row i i' ! j = block [k] i (data a) ! j * block [k] i' (data b) ! j"
        using j by (simp add: row_def)
      then show "row i i' ! j = at2 a i j * at2 b i' j"
        using block_nth [OF i j xs] block_nth [OF i' j ys] sa sb by (simp add: at2_def)
    qed
    also have "\<dots> = outer_flat (column a j) (column b j)"
      using sa sb by (simp add: outer_flat_def column_def o_def)
    finally show ?thesis .
  qed
  show ?thesis using kr vc col by (intro exI [of _ c]) (simp add: c_def)
qed

theorem khatri_rao_product_witness:
  "khatri_rao \<lparr>shape = [2, 2], data = [1, 0, 0, 1 :: int]\<rparr> \<lparr>shape = [2, 2], data = [1, 2, 3, 4]\<rparr>
     = Inr \<lparr>shape = [4, 2], data = [1, 0, 3, 0, 0, 2, 0, 4]\<rparr>
   \<and> column \<lparr>shape = [4, 2], data = [1, 0, 3, 0, 0, 2, 0, 4 :: int]\<rparr> 0 = [1, 3, 0, 0]
   \<and> column \<lparr>shape = [4, 2], data = [1, 0, 3, 0, 0, 2, 0, 4 :: int]\<rparr> 1 = [0, 0, 2, 4]"
proof -
  let ?a = "\<lparr>shape = [2, 2], data = [1, 0, 0, 1 :: int]\<rparr>"
  let ?b = "\<lparr>shape = [2, 2], data = [1, 2, 3, 4 :: int]\<rparr>"
  have ca: "column ?a 0 = [1, 0]" "column ?a 1 = [0, 1]"
    by (simp_all add: column_def at2_def upt_rec)
  have cb: "column ?b 0 = [1, 3]" "column ?b 1 = [2, 4]"
    by (simp_all add: column_def at2_def upt_rec)
  obtain c where c: "khatri_rao ?a ?b = Inr c" "shape c = [4, 2]" "valid c"
    "\<forall>j < 2. column c j = outer_flat (column ?a j) (column ?b j)"
    using khatri_rao_product [of ?a 2 2 ?b 2] by (auto simp add: valid_def)
  have c0: "column c 0 = [1, 3, 0, 0]" using c(4) ca cb by (simp add: outer_flat_def)
  have c1: "column c 1 = [0, 0, 2, 4]" using c(4) ca cb by (simp add: outer_flat_def)
  have l: "length (data c) = 8" using c(2,3) by (simp add: valid_def)
  have n: "data c ! 0 = 1" "data c ! 2 = 3" "data c ! 4 = 0" "data c ! 6 = 0"
    "data c ! 1 = 0" "data c ! 3 = 0" "data c ! 5 = 2" "data c ! 7 = 4"
    using c0 c1 c(2) by (simp_all add: column_def at2_def upt_rec)
  have "data c = [1, 0, 3, 0, 0, 2, 0, 4]"
    using l n by (simp add: list_eq_iff_nth_eq nth_Cons' less_Suc_eq eval_nat_numeral)
  then have "c = \<lparr>shape = [4, 2], data = [1, 0, 3, 0, 0, 2, 0, 4]\<rparr>" using c(2) by simp
  then show ?thesis using c(1) c0 c1 by simp
qed

subsection \<open>Arrays of one shape, and arrays given by their elements\<close>

lemma pad_shape_same [simp]: "pad_shape (length s) s = s"
  by (simp add: pad_shape_def)

lemma broadcast_shapes_same [simp]: "broadcast_shapes s s = Some s"
  by (induction s) simp_all

lemma elementwise_same:
  "valid a \<Longrightarrow> valid b \<Longrightarrow> shape a = shape b \<Longrightarrow> elementwise f a b = Inr (pointwise f a b)"
  by (simp add: elementwise_def ndim_def pointwise_def valid_def bc_same_shape)

lemma valid_mapa [simp]: "valid (mapa f a) = valid a"
  by (simp add: valid_def)

lemma valid_pointwise: "valid a \<Longrightarrow> valid b \<Longrightarrow> shape a = shape b \<Longrightarrow> valid (pointwise f a b)"
  by (simp add: valid_def pointwise_def)

lemma shape_pointwise [simp]: "shape (pointwise f a b) = shape a"
  by (simp add: pointwise_def)

lemma block_eq_map_nth:
  assumes i: "i < r" and l: "length xs = r * c"
  shows "block [c] i xs = map (\<lambda>j. xs ! (i * c + j)) [0..<c]"
proof -
  have "length (block [c] i xs) = c" using length_block_lt [OF i, of xs "[c]"] l by simp
  then show ?thesis using block_nth [OF i _ l] by (simp add: list_eq_iff_nth_eq)
qed

lemma tabulate2_at2: 
  assumes v: "valid a" and s: "shape a = [r, c]"
  shows "tabulate2 r c (at2 a) = a"
proof -
  have l: "length (data a) = r * c" using v s by (simp add: valid_def)
  have "concat (map (\<lambda>i. map (at2 a i) [0..<c]) [0..<r]) = concat (map (\<lambda>i. block [c] i (data a)) [0..<r])"
    by (rule arg_cong [where f = concat], rule map_cong [OF refl])
       (simp add: block_eq_map_nth [OF _ l] at2_def s)
  also have "\<dots> = data a" using l by (simp add: concat_blocks)
  finally show ?thesis using s by (simp add: tabulate2_def)
qed

lemma tabulate2_cong:
  assumes "\<And>i j. i < r \<Longrightarrow> j < c \<Longrightarrow> f i j = g i j"
  shows "tabulate2 r c f = tabulate2 r c g"
proof -
  have h: "map (\<lambda>i. map (f i) [0..<c]) [0..<r] = map (\<lambda>i. map (g i) [0..<c]) [0..<r]"
    by (rule map_cong [OF refl], rule map_cong [OF refl]) (simp add: assms)
  show ?thesis by (simp only: tabulate2_def h)
qed

lemma tabulate2_eq_iff:
  "tabulate2 r c f = tabulate2 r c g \<longleftrightarrow> (\<forall>i < r. \<forall>j < c. f i j = g i j)"
proof
  assume e: "tabulate2 r c f = tabulate2 r c g"
  show "\<forall>i < r. \<forall>j < c. f i j = g i j"
  proof (intro allI impI)
    fix i j assume "i < r" "j < c"
    then show "f i j = g i j"
      using at2_tabulate2 [of i r j c f] at2_tabulate2 [of i r j c g] e by simp
  qed
next
  assume "\<forall>i < r. \<forall>j < c. f i j = g i j"
  then show "tabulate2 r c f = tabulate2 r c g" by (intro tabulate2_cong) simp
qed

lemma mapa_tabulate2: "mapa h (tabulate2 r c f) = tabulate2 r c (\<lambda>i j. h (f i j))"
  by (simp add: mapa_def tabulate2_def map_concat o_def)

lemma index_lt: "i < r \<Longrightarrow> j < c \<Longrightarrow> i * c + j < r * (c::nat)"
proof -
  assume i: "i < r" and j: "j < c"
  have "Suc i * c \<le> r * c" using i by (intro mult_le_mono1) simp
  then show ?thesis using j by simp
qed

lemma pointwise_tabulate2:
  assumes va: "valid a" and sa: "shape a = [r, c]" and vb: "valid b" and sb: "shape b = [r, c]"
  shows "pointwise f a b = tabulate2 r c (\<lambda>i j. f (at2 a i j) (at2 b i j))"
proof -
  have la: "length (data a) = r * c" using va sa by (simp add: valid_def)
  have lb: "length (data b) = r * c" using vb sb by (simp add: valid_def)
  have v: "valid (pointwise f a b)" using va vb sa sb by (simp add: valid_pointwise)
  have s: "shape (pointwise f a b) = [r, c]" using sa by simp
  have "tabulate2 r c (at2 (pointwise f a b)) = tabulate2 r c (\<lambda>i j. f (at2 a i j) (at2 b i j))"
  proof (rule tabulate2_cong)
    fix i j assume "i < r" "j < c"
    then have "i * c + j < r * c" by (rule index_lt)
    then show "at2 (pointwise f a b) i j = f (at2 a i j) (at2 b i j)"
      using la lb sa sb by (simp add: at2_def pointwise_def)
  qed
  then show ?thesis using tabulate2_at2 [OF v s] by simp
qed

lemma mm_tabulate2:
  "mm (tabulate2 r k f) (tabulate2 k c g) = tabulate2 r c (\<lambda>i j. \<Sum>l\<leftarrow>[0..<k]. f i l * g l j)"
  unfolding mm_def
  by (simp, rule tabulate2_cong, rule arg_cong [where f = sum_list], rule map_cong [OF refl])
     (simp add: at2_tabulate2)

lemma shape_mm: "shape (mm a b) = [shape a ! 0, shape b ! 1]"
  by (simp add: mm_def)

lemma valid_mm [simp]: "valid (mm a b)"
  by (simp add: mm_def)

lemma zeros_tabulate2: "zeros [r, c] = tabulate2 r c (\<lambda>i j. 0)"
proof -
  have "concat (map (\<lambda>i. map (\<lambda>j. 0::'a) [0..<c]) [0..<r]) = replicate (r * c) 0"
    by (induction r) (simp_all add: map_replicate_const replicate_add)
  then show ?thesis by (simp add: zeros_def tabulate2_def)
qed

subsection \<open>Gaussian elimination solves the system\<close>

lemma dotj_Nil [simp]: "dotj [] Y j = 0" "dotj cs [] j = 0"
  by (simp_all add: dotj_def)

lemma dotj_Cons [simp]: "dotj (c # cs) (y # Y) j = c * y ! j + dotj cs Y j"
  by (simp add: dotj_def)

lemma length_lincomb: "\<forall>y \<in> set Y. length y = m \<Longrightarrow> length (lincomb m cs Y) = m"
  by (induction m cs Y rule: lincomb.induct) (simp_all add: vadd_def vscale_def)

lemma lincomb_nth:
  "\<forall>y \<in> set Y. length y = m \<Longrightarrow> j < m \<Longrightarrow> lincomb m cs Y ! j = dotj cs Y j"
proof (induction m cs Y rule: lincomb.induct)
  case (1 m c cs x xs)
  then have "length (lincomb m cs xs) = m" by (simp add: length_lincomb)
  then show ?case using "1" by (simp add: vadd_def vscale_def)
qed simp_all

lemma row_eq_iff:
  assumes "length r = m" and "\<forall>y \<in> set Y. length y = m"
  shows "lincomb m cs Y = r \<longleftrightarrow> (\<forall>j < m. dotj cs Y j = r ! j)"
  using assms by (auto simp add: list_eq_iff_nth_eq length_lincomb lincomb_nth)

lemma dotj_scale_div: "dotj (map (\<lambda>x. x / c) cs) Y j = dotj cs Y j / (c::'a::field)"
proof (induction cs arbitrary: Y)
  case Nil
  then show ?case by simp
next
  case (Cons d cs)
  then show ?case by (cases Y) (simp_all add: add_divide_distrib)
qed

lemma dotj_elim:
  "length ds = length cs \<Longrightarrow>
   dotj (vsub ds (vscale d cs)) Y j = dotj ds Y j - (d::'a::field) * dotj cs Y j"
proof (induction ds cs arbitrary: Y rule: list_induct2)
  case Nil
  then show ?case by (simp add: vsub_def)
next
  case (Cons x xs y ys)
  then show ?case by (cases Y) (simp_all add: vsub_def vscale_def algebra_simps)
qed

lemma find_pivot_Some:
  "find_pivot eqs = Some ((c, cs, r), rest) \<Longrightarrow>
   c \<noteq> 0 \<and> set eqs = insert (c # cs, r) (set rest) \<and> length eqs = Suc (length rest)"
proof (induction eqs arbitrary: rest rule: find_pivot.induct)
  case 1
  then show ?case by simp
next
  case (2 r es)
  then show ?case by simp
next
  case (3 c' cs' r' es)
  show ?case
  proof (cases "c' \<noteq> 0")
    case True
    then show ?thesis using "3.prems" by auto
  next
    case False
    then obtain rest' where f: "find_pivot es = Some ((c, cs, r), rest')"
      and rest: "rest = (c' # cs', r') # rest'"
      using "3.prems" by auto
    from "3.IH" [OF False f] show ?thesis using rest by auto
  qed
qed

lemma find_pivot_None:
  "find_pivot eqs = None \<Longrightarrow> wf_eqs m (Suc n) eqs \<Longrightarrow> \<forall>(cs, r) \<in> set eqs. \<exists>cs'. cs = 0 # cs'"
proof (induction eqs rule: find_pivot.induct)
  case 1
  then show ?case by simp
next
  case (2 r es)
  then show ?case by (simp add: wf_eqs_def)
next
  case (3 c cs r es)
  then show ?case by (auto simp add: wf_eqs_def split: if_splits)
qed


lemma wf_eqs_alt: "wf_eqs m n eqs \<longleftrightarrow> (\<forall>e \<in> set eqs. length (fst e) = n \<and> length (snd e) = m)"
  by (auto simp add: wf_eqs_def split: prod.splits)

lemma sol_Cons: "sol m (e # es) Y \<longleftrightarrow> lincomb m (fst e) Y = snd e \<and> sol m es Y"
  by (auto simp add: sol_def)

lemma sol_set_cong: "set eqs = set eqs' \<Longrightarrow> sol m eqs Y = sol m eqs' Y"
  by (simp add: sol_def)

lemma wf_eqs_set_cong: "set eqs = set eqs' \<Longrightarrow> wf_eqs m n eqs = wf_eqs m n eqs'"
  by (simp add: wf_eqs_def)

lemma pivot_row_iff:
  fixes c :: "'a::field"
  assumes c: "c \<noteq> 0" and r: "length r = m" and y: "length y = m"
    and Y: "\<forall>y \<in> set Y. length y = m"
  shows "lincomb m (c # cs) (y # Y) = r
     \<longleftrightarrow> y = vsub (map (\<lambda>x. x / c) r) (lincomb m (map (\<lambda>x. x / c) cs) Y)"
proof -
  have l: "length (lincomb m (map (\<lambda>x. x / c) cs) Y) = m" using Y by (simp add: length_lincomb)
  have "lincomb m (c # cs) (y # Y) = r \<longleftrightarrow> (\<forall>j < m. c * y ! j + dotj cs Y j = r ! j)"
    using row_eq_iff [OF r, of "y # Y" "c # cs"] y Y by simp
  also have "\<dots> \<longleftrightarrow> (\<forall>j < m. y ! j = r ! j / c - dotj cs Y j / c)"
    using c by (auto simp add: field_simps)
  also have "\<dots> \<longleftrightarrow> y = vsub (map (\<lambda>x. x / c) r) (lincomb m (map (\<lambda>x. x / c) cs) Y)"
    using r y l Y by (simp add: list_eq_iff_nth_eq vsub_def lincomb_nth dotj_scale_div)
  finally show ?thesis .
qed

lemma other_row_iff:
  fixes c :: "'a::field"
  assumes c: "c \<noteq> 0" and r: "length r = m" and cs: "length cs = n"
    and Y: "\<forall>y \<in> set Y. length y = m"
    and y: "y = vsub (map (\<lambda>x. x / c) r) (lincomb m (map (\<lambda>x. x / c) cs) Y)"
    and ds: "length ds = n" and q: "length q = m"
  shows "lincomb m (d # ds) (y # Y) = q
     \<longleftrightarrow> lincomb m (fst (eliminate (map (\<lambda>x. x / c) cs) (map (\<lambda>x. x / c) r) (d # ds, q))) Y
         = snd (eliminate (map (\<lambda>x. x / c) cs) (map (\<lambda>x. x / c) r) (d # ds, q))"
proof -
  have l: "length (lincomb m (map (\<lambda>x. x / c) cs) Y) = m" using Y by (simp add: length_lincomb)
  have ly: "length y = m" using y r l by (simp add: vsub_def)
  have yj: "y ! j = r ! j / c - dotj cs Y j / c" if "j < m" for j
    using that y r l Y by (simp add: vsub_def lincomb_nth dotj_scale_div)
  have "lincomb m (d # ds) (y # Y) = q \<longleftrightarrow> (\<forall>j < m. d * y ! j + dotj ds Y j = q ! j)"
    using row_eq_iff [OF q, of "y # Y" "d # ds"] ly Y by simp
  also have "\<dots> \<longleftrightarrow> (\<forall>j < m. dotj ds Y j - d * (dotj cs Y j / c) = q ! j - d * (r ! j / c))"
  proof -
    have "d * y ! j + dotj ds Y j = q ! j
        \<longleftrightarrow> dotj ds Y j - d * (dotj cs Y j / c) = q ! j - d * (r ! j / c)" if "j < m" for j
      unfolding yj [OF that] by (auto simp add: algebra_simps)
    then show ?thesis by blast
  qed
  also have "\<dots> \<longleftrightarrow> lincomb m (vsub ds (vscale d (map (\<lambda>x. x / c) cs))) Y
         = vsub q (vscale d (map (\<lambda>x. x / c) r))"
  proof -
    have lq: "length (vsub q (vscale d (map (\<lambda>x. x / c) r))) = m"
      using q r by (simp add: vsub_def vscale_def)
    have "(vsub q (vscale d (map (\<lambda>x. x / c) r))) ! j = q ! j - d * (r ! j / c)" if "j < m" for j
      using that q r by (simp add: vsub_def vscale_def)
    then show ?thesis
      using row_eq_iff [OF lq Y, of "vsub ds (vscale d (map (\<lambda>x. x / c) cs))"] ds cs
      by (simp add: dotj_elim dotj_scale_div)
  qed
  finally show ?thesis by simp
qed

lemma elimination_step:
  fixes c :: "'a::field"
  assumes c: "c \<noteq> 0" and r: "length r = m" and cs: "length cs = n"
    and rest: "wf_eqs m (Suc n) rest"
    and y: "length y = m" and Y: "\<forall>y \<in> set Y. length y = m"
  shows "sol m ((c # cs, r) # rest) (y # Y)
     \<longleftrightarrow> y = vsub (map (\<lambda>x. x / c) r) (lincomb m (map (\<lambda>x. x / c) cs) Y)
         \<and> sol m (map (eliminate (map (\<lambda>x. x / c) cs) (map (\<lambda>x. x / c) r)) rest) Y"
proof -
  let ?y0 = "vsub (map (\<lambda>x. x / c) r) (lincomb m (map (\<lambda>x. x / c) cs) Y)"
  let ?el = "eliminate (map (\<lambda>x. x / c) cs) (map (\<lambda>x. x / c) r)"
  have others: "sol m rest (y # Y) \<longleftrightarrow> sol m (map ?el rest) Y" if y0: "y = ?y0"
  proof -
    have "lincomb m ds' (y # Y) = q \<longleftrightarrow> lincomb m (fst (?el (ds', q))) Y = snd (?el (ds', q))"
      if "(ds', q) \<in> set rest" for ds' q
    proof -
      from that rest have l: "length ds' = Suc n" "length q = m" by (auto simp add: wf_eqs_def)
      then obtain d ds where d: "ds' = d # ds" "length ds = n" by (cases ds') auto
      show ?thesis unfolding d using other_row_iff [OF c r cs Y y0 d(2) l(2)] .
    qed
    then show ?thesis by (auto simp add: sol_def split: prod.splits)
  qed
  have "sol m ((c # cs, r) # rest) (y # Y) \<longleftrightarrow> y = ?y0 \<and> sol m rest (y # Y)"
    using pivot_row_iff [OF c r y Y] by (simp add: sol_Cons)
  then show ?thesis using others by blast
qed

lemma wf_eliminate:
  assumes cs: "length cs' = n" and r: "length r' = m" and rest: "wf_eqs m (Suc n) rest"
  shows "wf_eqs m n (map (eliminate cs' r') rest)"
proof -
  have "length (fst (eliminate cs' r' (ds', q))) = n \<and> length (snd (eliminate cs' r' (ds', q))) = m"
    if "(ds', q) \<in> set rest" for ds' q
  proof -
    from that rest have l: "length ds' = Suc n" "length q = m" by (auto simp add: wf_eqs_def)
    then obtain d ds where d: "ds' = d # ds" "length ds = n" by (cases ds') auto
    show ?thesis unfolding d using d(2) l(2) cs r by (simp add: vsub_def vscale_def)
  qed
  then show ?thesis unfolding wf_eqs_alt by auto
qed


lemma wf_vecs_Cons: "wf_vecs m (Suc n) (y # Y) \<longleftrightarrow> length y = m \<and> wf_vecs m n Y"
  by (auto simp add: wf_vecs_def)

lemma wf_vecs_Suc_obtain:
  assumes "wf_vecs m (Suc n) Y"
  obtains y Y' where "Y = y # Y'" "length y = m" "wf_vecs m n Y'"
  using assms by (cases Y) (auto simp add: wf_vecs_def)

lemma gauss_correct:
  fixes eqs :: "'a::field equation list"
  assumes "length eqs = n" and "wf_eqs m n eqs"
  shows "(\<forall>X. gauss m n eqs = Some X \<longrightarrow>
            wf_vecs m n X \<and> (\<forall>Y. wf_vecs m n Y \<longrightarrow> (sol m eqs Y \<longleftrightarrow> Y = X)))
       \<and> (gauss m n eqs = None \<longrightarrow> 0 < m \<longrightarrow>
            (\<forall>Y. wf_vecs m n Y \<and> sol m eqs Y \<longrightarrow> (\<exists>Z. wf_vecs m n Z \<and> sol m eqs Z \<and> Z \<noteq> Y)))"
  using assms
proof (induction n arbitrary: eqs)
  case 0
  then show ?case by (auto simp add: wf_vecs_def sol_def)
next
  case (Suc n)
  show ?case
  proof (cases "find_pivot eqs")
    case None
    have lead: "\<forall>(cs, r) \<in> set eqs. \<exists>cs'. cs = 0 # cs'"
      using find_pivot_None [OF None Suc.prems(2)] .
    have g: "gauss m (Suc n) eqs = None" using None by simp
    have "\<exists>Z. wf_vecs m (Suc n) Z \<and> sol m eqs Z \<and> Z \<noteq> Y"
      if m: "0 < m" and Y: "wf_vecs m (Suc n) Y" and sY: "sol m eqs Y" for Y
    proof -
      from Y obtain y Y' where Yc: "Y = y # Y'" and ly: "length y = m" and wY': "wf_vecs m n Y'"
        by (rule wf_vecs_Suc_obtain)
      define z where "z = map (\<lambda>x. x + 1) y"
      have lz: "length z = m" using ly by (simp add: z_def)
      have "z ! 0 \<noteq> y ! 0" using m ly by (simp add: z_def)
      then have ne: "z # Y' \<noteq> Y" using Yc by auto
      have wZ: "wf_vecs m (Suc n) (z # Y')" using lz wY' by (simp add: wf_vecs_Cons)
      have rows: "\<forall>y \<in> set Y'. length y = m" using wY' by (simp add: wf_vecs_def)
      have "lincomb m cs (z # Y') = r" if e: "(cs, r) \<in> set eqs" for cs r
      proof -
        from lead e obtain cs' where cs: "cs = 0 # cs'" by auto
        from e Suc.prems(2) have lr: "length r = m" by (auto simp add: wf_eqs_def)
        from sY e have "lincomb m cs (y # Y') = r" by (auto simp add: sol_def Yc)
        then have "\<forall>j < m. dotj cs (y # Y') j = r ! j"
          using row_eq_iff [OF lr, of "y # Y'" cs] ly rows by simp
        then have "\<forall>j < m. dotj cs (z # Y') j = r ! j" by (simp add: cs)
        then show ?thesis using row_eq_iff [OF lr, of "z # Y'" cs] lz rows by simp
      qed
      then have "sol m eqs (z # Y')" by (auto simp add: sol_def)
      then show ?thesis using wZ ne by blast
    qed
    then show ?thesis using g by auto
  next
    case (Some p)
    obtain c cs r rest where p: "p = ((c, cs, r), rest)" by (cases p) auto
    have fp: "find_pivot eqs = Some ((c, cs, r), rest)" using Some p by simp
    from find_pivot_Some [OF fp]
    have c: "c \<noteq> 0" and st: "set eqs = set ((c # cs, r) # rest)" and len: "length eqs = Suc (length rest)"
      by simp_all
    have lrest: "length rest = n" using len Suc.prems(1) by simp
    have wf': "wf_eqs m (Suc n) ((c # cs, r) # rest)"
      using Suc.prems(2) wf_eqs_set_cong [OF st] by simp
    then have lcs: "length cs = n" and lr: "length r = m" and wrest: "wf_eqs m (Suc n) rest"
      by (simp_all add: wf_eqs_def)
    define cs' where "cs' = map (\<lambda>x. x / c) cs"
    define r' where "r' = map (\<lambda>x. x / c) r"
    define rest' where "rest' = map (eliminate cs' r') rest"
    define y0 where "y0 = (\<lambda>Y. vsub r' (lincomb m cs' Y))"
    have wrest': "wf_eqs m n rest'"
      unfolding rest'_def using wf_eliminate [of cs' n r' m rest] lcs lr wrest
      by (simp add: cs'_def r'_def)
    have lrest': "length rest' = n" using lrest by (simp add: rest'_def)
    note IH = Suc.IH [OF lrest' wrest']
    have step: "sol m eqs (y # Y) \<longleftrightarrow> y = y0 Y \<and> sol m rest' Y"
      if "length y = m" "wf_vecs m n Y" for y Y
      using elimination_step [OF c lr lcs wrest that(1), of Y] that(2) sol_set_cong [OF st]
      by (simp add: wf_vecs_def y0_def rest'_def cs'_def r'_def)
    have ly0: "length (y0 Y) = m" if "wf_vecs m n Y" for Y
      using that lr by (simp add: y0_def vsub_def r'_def length_lincomb wf_vecs_def)
    have g: "gauss m (Suc n) eqs = (case gauss m n rest' of None \<Rightarrow> None | Some X \<Rightarrow> Some (y0 X # X))"
      using fp by (simp add: rest'_def cs'_def r'_def y0_def Let_def split: option.splits)
    show ?thesis
    proof (cases "gauss m n rest'")
      case None
      have gN: "gauss m (Suc n) eqs = None" using g None by simp
      have "\<exists>Z. wf_vecs m (Suc n) Z \<and> sol m eqs Z \<and> Z \<noteq> Y"
        if m: "0 < m" and Y: "wf_vecs m (Suc n) Y" and sY: "sol m eqs Y" for Y
      proof -
        from Y obtain y Y' where Yc: "Y = y # Y'" and ly: "length y = m" and wY': "wf_vecs m n Y'"
          by (rule wf_vecs_Suc_obtain)
        from sY have "sol m rest' Y'" using step [OF ly wY'] Yc by simp
        with IH None m wY' obtain Z' where Z': "wf_vecs m n Z'" "sol m rest' Z'" "Z' \<noteq> Y'"
          by blast
        have "wf_vecs m (Suc n) (y0 Z' # Z')" using Z'(1) ly0 by (simp add: wf_vecs_Cons)
        moreover have "sol m eqs (y0 Z' # Z')" using step [OF ly0 [OF Z'(1)] Z'(1)] Z'(2) by simp
        moreover have "y0 Z' # Z' \<noteq> Y" using Z'(3) Yc by simp
        ultimately show ?thesis by blast
      qed
      then show ?thesis using gN by auto
    next
      case (Some X')
      have gS: "gauss m (Suc n) eqs = Some (y0 X' # X')" using g Some by simp
      from IH Some have wX': "wf_vecs m n X'"
        and uX': "\<And>Y. wf_vecs m n Y \<Longrightarrow> (sol m rest' Y \<longleftrightarrow> Y = X')"
        by blast+
      have wX: "wf_vecs m (Suc n) (y0 X' # X')" using wX' ly0 by (simp add: wf_vecs_Cons)
      have "sol m eqs Y \<longleftrightarrow> Y = y0 X' # X'" if Y: "wf_vecs m (Suc n) Y" for Y
      proof -
        from Y obtain y Y' where Yc: "Y = y # Y'" and ly: "length y = m" and wY': "wf_vecs m n Y'"
          by (rule wf_vecs_Suc_obtain)
        show ?thesis unfolding Yc using step [OF ly wY'] uX' [OF wY'] by auto
      qed
      then show ?thesis using gS wX by auto
    qed
  qed
qed

subsection \<open>The solver returns the unique solution\<close>

lemma length_rows [simp]: "length (rows a) = shape a ! 0"
  by (simp add: rows_def)

lemma rows_nth: "i < shape a ! 0 \<Longrightarrow> rows a ! i = block [shape a ! 1] i (data a)"
  by (simp add: rows_def)

lemma wf_vecs_rows:
  assumes v: "valid a" and s: "shape a = [r, c]"
  shows "wf_vecs c r (rows a)"
proof -
  have l: "length (data a) = r * c" using v s by (simp add: valid_def)
  have "length (block [c] i (data a)) = c" if "i < r" for i
    using length_block_lt [OF that, of "data a" "[c]"] l by simp
  then show ?thesis using s by (auto simp add: wf_vecs_def rows_def)
qed

lemma rows_nth_nth:
  assumes v: "valid a" and s: "shape a = [r, c]" and i: "i < r" and j: "j < c"
  shows "rows a ! i ! j = at2 a i j"
proof -
  have l: "length (data a) = r * c" using v s by (simp add: valid_def)
  show ?thesis using block_nth [OF i j l] i s by (simp add: rows_nth at2_def)
qed

lemma of_rows_rows:
  assumes v: "valid a" and s: "shape a = [r, c]"
  shows "of_rows r c (rows a) = a"
proof -
  have l: "length (data a) = r * c" using v s by (simp add: valid_def)
  have "concat (rows a) = data a"
    using l s concat_blocks [of "[c]" "data a" r] by (simp add: rows_def)
  then show ?thesis using s by (simp add: of_rows_def)
qed

lemma valid_of_rows: "wf_vecs c r X \<Longrightarrow> valid (of_rows r c X)"
  using length_concat_uniform [of X c] by (simp add: wf_vecs_def valid_def of_rows_def)

lemma shape_of_rows [simp]: "shape (of_rows r c X) = [r, c]"
  by (simp add: of_rows_def)

lemma rows_of_rows:
  assumes w: "wf_vecs c r X"
  shows "rows (of_rows r c X) = X"
proof -
  have u: "\<forall>x \<in> set X. length x = c" and lX: "length X = r" using w by (simp_all add: wf_vecs_def)
  have l: "length (concat X) = r * c" using length_concat_uniform [OF u] lX by simp
  have "block [c] i (concat X) = X ! i" if i: "i < r" for i
  proof -
    have "length (block [c] i (concat X)) = c"
      using length_block_lt [OF i, of "concat X" "[c]"] l by simp
    moreover have "length (X ! i) = c" using u i lX by simp
    moreover have "block [c] i (concat X) ! j = X ! i ! j" if "j < c" for j
      using block_nth [OF i that l] nth_concat_uniform [OF u _ that, of i] i lX by simp
    ultimately show ?thesis by (simp add: list_eq_iff_nth_eq)
  qed
  then show ?thesis using lX by (simp add: rows_def of_rows_def list_eq_iff_nth_eq)
qed

lemma zip_nth_map: "length xs = length ys \<Longrightarrow> zip xs ys = map (\<lambda>l. (xs ! l, ys ! l)) [0..<length xs]"
  by (rule nth_equalityI) simp_all

lemma dotj_sum:
  "length cs = length Y \<Longrightarrow> dotj cs Y j = (\<Sum>l\<leftarrow>[0..<length cs]. cs ! l * Y ! l ! j)"
  by (simp add: dotj_def zip_nth_map o_def)

lemma sol_zip_iff:
  assumes "length A = n" and "length B = n"
  shows "sol m (zip A B) Y \<longleftrightarrow> (\<forall>i < n. lincomb m (A ! i) Y = B ! i)"
  using assms by (auto simp add: sol_def set_zip)

lemma mm_eq_iff_sol:
  fixes a :: "'a::field ndarray"
  assumes va: "valid a" and sa: "shape a = [n, n]"
    and vb: "valid b" and sb: "shape b = [n, m]"
    and vy: "valid y" and sy: "shape y = [n, m]"
  shows "mm a y = b \<longleftrightarrow> sol m (zip (rows a) (rows b)) (rows y)"
proof -
  have wa: "wf_vecs n n (rows a)" using wf_vecs_rows [OF va sa] .
  have wb: "wf_vecs m n (rows b)" using wf_vecs_rows [OF vb sb] .
  have wy: "wf_vecs m n (rows y)" using wf_vecs_rows [OF vy sy] .
  have uy: "\<forall>x \<in> set (rows y). length x = m" using wy by (simp add: wf_vecs_def)
  have d: "dotj (rows a ! i) (rows y) j = (\<Sum>l\<leftarrow>[0..<n]. at2 a i l * at2 y l j)"
    if i: "i < n" and j: "j < m" for i j
  proof -
    have la: "length (rows a ! i) = n" using wa i by (simp add: wf_vecs_def)
    have "dotj (rows a ! i) (rows y) j = (\<Sum>l\<leftarrow>[0..<n]. rows a ! i ! l * rows y ! l ! j)"
      using dotj_sum [of "rows a ! i" "rows y" j] la wy by (simp add: wf_vecs_def)
    also have "\<dots> = (\<Sum>l\<leftarrow>[0..<n]. at2 a i l * at2 y l j)"
      by (rule arg_cong [where f = sum_list], rule map_cong [OF refl])
         (simp add: rows_nth_nth [OF va sa i] rows_nth_nth [OF vy sy _ j])
    finally show ?thesis .
  qed
  have "mm a y = b \<longleftrightarrow> tabulate2 n m (\<lambda>i j. \<Sum>l\<leftarrow>[0..<n]. at2 a i l * at2 y l j) = tabulate2 n m (at2 b)"
    using tabulate2_at2 [OF vb sb] sa sy by (simp add: mm_def)
  also have "\<dots> \<longleftrightarrow> (\<forall>i < n. \<forall>j < m. (\<Sum>l\<leftarrow>[0..<n]. at2 a i l * at2 y l j) = at2 b i j)"
    by (rule tabulate2_eq_iff)
  also have "\<dots> \<longleftrightarrow> (\<forall>i < n. \<forall>j < m. dotj (rows a ! i) (rows y) j = rows b ! i ! j)"
    using d rows_nth_nth [OF vb sb] by simp
  also have "\<dots> \<longleftrightarrow> (\<forall>i < n. lincomb m (rows a ! i) (rows y) = rows b ! i)"
  proof -
    have "lincomb m (rows a ! i) (rows y) = rows b ! i
        \<longleftrightarrow> (\<forall>j < m. dotj (rows a ! i) (rows y) j = rows b ! i ! j)" if "i < n" for i
    proof -
      have "length (rows b ! i) = m" using wb that by (simp add: wf_vecs_def)
      then show ?thesis using row_eq_iff [OF _ uy] by simp
    qed
    then show ?thesis by blast
  qed
  also have "\<dots> \<longleftrightarrow> sol m (zip (rows a) (rows b)) (rows y)"
    using sol_zip_iff [of "rows a" n "rows b" m "rows y"] sa sb by simp
  finally show ?thesis .
qed

lemma wf_eqs_zip_rows:
  assumes va: "valid a" and sa: "shape a = [n, n]" and vb: "valid b" and sb: "shape b = [n, m]"
  shows "wf_eqs m n (zip (rows a) (rows b))" and "length (zip (rows a) (rows b)) = n"
proof -
  have wa: "wf_vecs n n (rows a)" using wf_vecs_rows [OF va sa] .
  have wb: "wf_vecs m n (rows b)" using wf_vecs_rows [OF vb sb] .
  show "wf_eqs m n (zip (rows a) (rows b))"
    using wa wb by (auto simp add: wf_eqs_def wf_vecs_def dest: set_zip_leftD set_zip_rightD)
  show "length (zip (rows a) (rows b)) = n" using sa sb by simp
qed

lemma cupy_solve_gauss:
  "shape a = [n, n] \<Longrightarrow> shape b = [n, m] \<Longrightarrow>
   cupy_solve a b = (case gauss m n (zip (rows a) (rows b)) of
                       None \<Rightarrow> Inl (LinAlgError ''Singular matrix'')
                     | Some X \<Rightarrow> Inr (of_rows n m X))"
  by (simp add: cupy_solve_def)

lemma cupy_solve_sound:
  fixes a :: "'a::field ndarray"
  assumes va: "valid a" and sa: "shape a = [n, n]" and vb: "valid b" and sb: "shape b = [n, m]"
    and x: "cupy_solve a b = Inr x"
  shows "valid x \<and> shape x = [n, m] \<and> mm a x = b
       \<and> (\<forall>y. valid y \<and> shape y = [n, m] \<and> mm a y = b \<longrightarrow> y = x)"
proof -
  note wf = wf_eqs_zip_rows [OF va sa vb sb]
  from x obtain X where g: "gauss m n (zip (rows a) (rows b)) = Some X" and xX: "x = of_rows n m X"
    by (auto simp add: cupy_solve_gauss [OF sa sb] split: option.splits)
  from gauss_correct [OF wf(2) wf(1)] g
  have wX: "wf_vecs m n X"
    and uX: "\<And>Y. wf_vecs m n Y \<Longrightarrow> (sol m (zip (rows a) (rows b)) Y \<longleftrightarrow> Y = X)"
    by blast+
  have vx: "valid x" and sx: "shape x = [n, m]" using wX xX by (simp_all add: valid_of_rows)
  have rx: "rows x = X" using rows_of_rows [OF wX] xX by simp
  have mx: "mm a x = b" using mm_eq_iff_sol [OF va sa vb sb vx sx] uX [OF wX] rx by simp
  have "y = x" if vy: "valid y" and sy: "shape y = [n, m]" and my: "mm a y = b" for y
  proof -
    have "rows y = X"
      using mm_eq_iff_sol [OF va sa vb sb vy sy] my uX [OF wf_vecs_rows [OF vy sy]] by simp
    then show ?thesis using of_rows_rows [OF vy sy] xX by simp
  qed
  then show ?thesis using vx sx mx by blast
qed

lemma cupy_solve_complete:
  fixes a :: "'a::field ndarray"
  assumes va: "valid a" and sa: "shape a = [n, n]" and vb: "valid b" and sb: "shape b = [n, m]"
    and m: "0 < m"
    and vx: "valid x" and sx: "shape x = [n, m]" and mx: "mm a x = b"
    and ux: "\<And>y. valid y \<Longrightarrow> shape y = [n, m] \<Longrightarrow> mm a y = b \<Longrightarrow> y = x"
  shows "cupy_solve a b = Inr x"
proof (cases "gauss m n (zip (rows a) (rows b))")
  case None
  note wf = wf_eqs_zip_rows [OF va sa vb sb]
  have sx': "sol m (zip (rows a) (rows b)) (rows x)"
    using mm_eq_iff_sol [OF va sa vb sb vx sx] mx by simp
  from gauss_correct [OF wf(2) wf(1)] None m wf_vecs_rows [OF vx sx] sx'
  obtain Z where Z: "wf_vecs m n Z" "sol m (zip (rows a) (rows b)) Z" "Z \<noteq> rows x"
    by blast
  have "mm a (of_rows n m Z) = b"
    using mm_eq_iff_sol [OF va sa vb sb valid_of_rows [OF Z(1)] shape_of_rows] Z(2)
      rows_of_rows [OF Z(1)]
    by simp
  then have "of_rows n m Z = x" using ux [OF valid_of_rows [OF Z(1)]] by simp
  then have "Z = rows x" using rows_of_rows [OF Z(1)] by simp
  then show ?thesis using Z(3) by simp
next
  case (Some X)
  then have "cupy_solve a b = Inr (of_rows n m X)" by (simp add: cupy_solve_gauss [OF sa sb])
  then show ?thesis using cupy_solve_sound [OF va sa vb sb] vx sx mx by metis
qed

subsection \<open>The Pade step\<close>

lemma add_same:
  "valid a \<Longrightarrow> valid b \<Longrightarrow> shape a = shape b \<Longrightarrow> add a b = Inr (pointwise (+) a b)"
  by (simp add: add_def elementwise_same)

lemma subtract_same:
  "valid a \<Longrightarrow> valid b \<Longrightarrow> shape a = shape b \<Longrightarrow> subtract a b = Inr (pointwise (-) a b)"
  by (simp add: subtract_def elementwise_same)

lemma cupy_matmul_2d:
  "shape a = [r, k] \<Longrightarrow> shape b = [k, c] \<Longrightarrow> cupy_matmul a b = Inr (mm a b)"
  by (simp add: cupy_matmul_def)

lemma valid_scalar_mul [simp]: "valid (scalar_mul c a) = valid a"
  by (simp add: scalar_mul_def)

lemma valid_scalar_div [simp]: "valid (scalar_div a c) = valid a"
  by (simp add: scalar_div_def)

lemma valid_negative [simp]: "valid (negative a) = valid a"
  by (simp add: negative_def)

lemma valid_cupy_eye [simp]: "valid (cupy_eye n)"
  by (simp add: cupy_eye_def)

lemma shape_mm_square: "shape a = [n, n] \<Longrightarrow> shape b = [n, n] \<Longrightarrow> shape (mm a b) = [n, n]"
  by (simp add: shape_mm)

lemma length_pade_b: "length pade_b = 14"
  by (simp add: pade_b_def)

lemma expm_inner_same:
  fixes A :: "'a::real_normed_field ndarray"
  assumes "valid E" "shape E = s" "valid A" "shape A = s" "valid A2" "shape A2 = s"
    "valid A4" "shape A4 = s" "valid A6" "shape A6 = s"
  shows "expm_inner E A A2 A4 A6 pade_b =
    Inr (pointwise (+) (pointwise (+) (scalar_mul (of_real (pade_b ! 13)) A6)
                                     (scalar_mul (of_real (pade_b ! 11)) A4))
                       (scalar_mul (of_real (pade_b ! 9)) A2),
         pointwise (+) (pointwise (+) (pointwise (+) (scalar_mul (of_real (pade_b ! 7)) A6)
                                                    (scalar_mul (of_real (pade_b ! 5)) A4))
                                      (scalar_mul (of_real (pade_b ! 3)) A2))
                       (scalar_mul (of_real (pade_b ! 1)) E),
         pointwise (+) (pointwise (+) (scalar_mul (of_real (pade_b ! 12)) A6)
                                     (scalar_mul (of_real (pade_b ! 10)) A4))
                       (scalar_mul (of_real (pade_b ! 8)) A),
         pointwise (+) (pointwise (+) (pointwise (+) (scalar_mul (of_real (pade_b ! 6)) A6)
                                                    (scalar_mul (of_real (pade_b ! 4)) A4))
                                      (scalar_mul (of_real (pade_b ! 2)) A2))
                       (scalar_mul (of_real (pade_b ! 0)) E))"
  using assms by (simp add: expm_inner_def length_pade_b add_same valid_pointwise)


lemma pade13_unfold:
  fixes A :: "'a::{real_normed_field, banach} ndarray" and n :: nat
  fixes A2 A4 A6 E u1 u2 v1 v2 u v :: "'a ndarray" and b :: "nat \<Rightarrow> 'a"
  assumes vA: "valid A" and sA: "shape A = [n, n]"
  defines "A2 \<equiv> mm A A"
    and "A4 \<equiv> mm A2 A2"
    and "A6 \<equiv> mm A2 A4"
    and "E \<equiv> cupy_eye n"
    and "b \<equiv> \<lambda>i. of_real (pade_b ! i)"
  defines "u1 \<equiv> pointwise (+) (pointwise (+) (scalar_mul (b 13) A6) (scalar_mul (b 11) A4))
                               (scalar_mul (b 9) A2)"
    and "u2 \<equiv> pointwise (+) (pointwise (+) (pointwise (+) (scalar_mul (b 7) A6)
                               (scalar_mul (b 5) A4)) (scalar_mul (b 3) A2)) (scalar_mul (b 1) E)"
    and "v1 \<equiv> pointwise (+) (pointwise (+) (scalar_mul (b 12) A6) (scalar_mul (b 10) A4))
                               (scalar_mul (b 8) A)"
    and "v2 \<equiv> pointwise (+) (pointwise (+) (pointwise (+) (scalar_mul (b 6) A6)
                               (scalar_mul (b 4) A4)) (scalar_mul (b 2) A2)) (scalar_mul (b 0) E)"
  defines "u \<equiv> mm A (pointwise (+) (mm A6 u1) u2)"
    and "v \<equiv> pointwise (+) (mm A6 v1) v2"
  shows "expm_inner E A A2 A4 A6 pade_b = Inr (u1, u2, v1, v2)
       \<and> pade13 cupy_linalg A = cupy_solve (pointwise (+) (negative u) v) (pointwise (+) u v)
       \<and> valid (pointwise (+) (negative u) v) \<and> shape (pointwise (+) (negative u) v) = [n, n]
       \<and> valid (pointwise (+) u v) \<and> shape (pointwise (+) u v) = [n, n]"
proof -
  have v2': "valid A2" "valid A4" "valid A6" "valid E"
    by (simp_all add: A2_def A4_def A6_def E_def)
  have s2: "shape A2 = [n, n]" by (simp add: A2_def shape_mm sA)
  have s4: "shape A4 = [n, n]" by (simp add: A4_def shape_mm s2)
  have s6: "shape A6 = [n, n]" by (simp add: A6_def shape_mm s2 s4)
  have sE: "shape E = [n, n]" by (simp add: E_def)
  have inner: "expm_inner E A A2 A4 A6 pade_b = Inr (u1, u2, v1, v2)"
    unfolding u1_def u2_def v1_def v2_def b_def
    by (rule expm_inner_same [OF v2'(4) sE vA sA v2'(1) s2 v2'(2) s4 v2'(3) s6])
  have vu1: "valid u1" and su1: "shape u1 = [n, n]"
    using v2' s2 s4 s6 by (simp_all add: u1_def valid_pointwise)
  have vu2: "valid u2" and su2: "shape u2 = [n, n]"
    using v2' s2 s4 s6 sE by (simp_all add: u2_def valid_pointwise)
  have vv1: "valid v1" and sv1: "shape v1 = [n, n]"
    using v2' s2 s4 s6 vA sA by (simp_all add: v1_def valid_pointwise)
  have vv2: "valid v2" and sv2: "shape v2 = [n, n]"
    using v2' s2 s4 s6 sE by (simp_all add: v2_def valid_pointwise)
  have st: "shape (mm A6 u1) = [n, n]" "shape (mm A6 v1) = [n, n]"
    by (simp_all add: shape_mm s6 su1 sv1)
  have vt: "valid (pointwise (+) (mm A6 u1) u2)" and st2: "shape (pointwise (+) (mm A6 u1) u2) = [n, n]"
    using vu2 su2 st by (simp_all add: valid_pointwise)
  have vu: "valid u" and su: "shape u = [n, n]"
    by (simp_all add: u_def shape_mm_square [OF sA st2])
  have vv: "valid v" and sv: "shape v = [n, n]"
    using vv2 sv2 st by (simp_all add: v_def valid_pointwise)
  have m: "cupy_matmul A A = Inr A2" "cupy_matmul A2 A2 = Inr A4" "cupy_matmul A2 A4 = Inr A6"
    "cupy_matmul A6 u1 = Inr (mm A6 u1)" "cupy_matmul A6 v1 = Inr (mm A6 v1)"
    "cupy_matmul A (pointwise (+) (mm A6 u1) u2) = Inr u"
    using sA s2 s4 s6 su1 sv1 st2
    by (simp_all add: cupy_matmul_2d [where k = n] A2_def A4_def A6_def u_def)
  have a: "add (mm A6 u1) u2 = Inr (pointwise (+) (mm A6 u1) u2)"
    "add (mm A6 v1) v2 = Inr v"
    "add (negative u) v = Inr (pointwise (+) (negative u) v)"
    "add u v = Inr (pointwise (+) u v)"
    using st vu2 su2 vv2 sv2 vu su vv sv by (simp_all add: add_same v_def)
  have sh: "shape_at A 0 = Inr n" using sA by (simp add: shape_at_def)
  have inner': "expm_inner (cupy_eye n) A A2 A4 A6 pade_b = Inr (u1, u2, v1, v2)"
    using inner by (simp only: E_def)
  have p: "pade13 cupy_linalg A = cupy_solve (pointwise (+) (negative u) v) (pointwise (+) u v)"
    apply (simp only: pade13_def)
    apply (simp only: cupy_linalg_def linalg.simps)
    apply (simp only: m bindE_Inr)
    apply (simp only: sh bindE_Inr)
    apply (simp only: Let_def)
    apply (simp only: inner' bindE_Inr prod.case)
    apply (simp only: m bindE_Inr)
    apply (simp only: a(1) bindE_Inr)
    apply (simp only: m bindE_Inr)
    apply (simp only: a(2) bindE_Inr)
    apply (simp only: a(3) bindE_Inr)
    apply (simp only: a(4) bindE_Inr)
    done
  have vl: "valid (pointwise (+) (negative u) v)" and sl: "shape (pointwise (+) (negative u) v) = [n, n]"
    using vu su vv sv by (simp_all add: valid_pointwise)
  have vr: "valid (pointwise (+) u v)" and sr: "shape (pointwise (+) u v) = [n, n]"
    using vu su vv sv by (simp_all add: valid_pointwise)
  show ?thesis using inner p vl sl vr sr by simp
qed

text \<open>
  Claim C1. For a square scaled matrix \<open>A\<close>, with the powers \<open>A2 = A A\<close>, \<open>A4 = A2 A2\<close>,
  \<open>A6 = A2 A4\<close>, the identity \<open>E\<close> and the coefficients \<open>b 0\<close> to \<open>b 13\<close> of the table,
  \<^verbatim>\<open>_expm_inner\<close> returns \<open>u1 = b13 A6 + b11 A4 + b9 A2\<close>,
  \<open>u2 = b7 A6 + b5 A4 + b3 A2 + b1 E\<close>, \<open>v1 = b12 A6 + b10 A4 + b8 A\<close> (with \<open>A\<close>, not \<open>A2\<close>)
  and \<open>v2 = b6 A6 + b4 A4 + b2 A2 + b0 E\<close>; with \<open>u = A (A6 u1 + u2)\<close> and \<open>v = A6 v1 + v2\<close>
  the step is the solve of \<open>(-u + v) r13 = u + v\<close>, and a result \<open>r13\<close> satisfies that
  equation and is the only matrix of its shape that does.
\<close>

theorem pade13_parts:
  fixes A :: "'a::{real_normed_field, banach} ndarray" and n :: nat
  fixes A2 A4 A6 E u1 u2 v1 v2 u v :: "'a ndarray" and b :: "nat \<Rightarrow> 'a"
  assumes vA: "valid A" and sA: "shape A = [n, n]"
  defines "A2 \<equiv> mm A A"
    and "A4 \<equiv> mm A2 A2"
    and "A6 \<equiv> mm A2 A4"
    and "E \<equiv> cupy_eye n"
    and "b \<equiv> \<lambda>i. of_real (pade_b ! i)"
  defines "u1 \<equiv> pointwise (+) (pointwise (+) (scalar_mul (b 13) A6) (scalar_mul (b 11) A4))
                               (scalar_mul (b 9) A2)"
    and "u2 \<equiv> pointwise (+) (pointwise (+) (pointwise (+) (scalar_mul (b 7) A6)
                               (scalar_mul (b 5) A4)) (scalar_mul (b 3) A2)) (scalar_mul (b 1) E)"
    and "v1 \<equiv> pointwise (+) (pointwise (+) (scalar_mul (b 12) A6) (scalar_mul (b 10) A4))
                               (scalar_mul (b 8) A)"
    and "v2 \<equiv> pointwise (+) (pointwise (+) (pointwise (+) (scalar_mul (b 6) A6)
                               (scalar_mul (b 4) A4)) (scalar_mul (b 2) A2)) (scalar_mul (b 0) E)"
  defines "u \<equiv> mm A (pointwise (+) (mm A6 u1) u2)"
    and "v \<equiv> pointwise (+) (mm A6 v1) v2"
  shows "expm_inner E A A2 A4 A6 pade_b = Inr (u1, u2, v1, v2)
       \<and> pade13 cupy_linalg A = solve cupy_linalg (pointwise (+) (negative u) v) (pointwise (+) u v)
       \<and> (\<forall>r13. pade13 cupy_linalg A = Inr r13 \<longrightarrow>
             valid r13 \<and> shape r13 = [n, n]
             \<and> mm (pointwise (+) (negative u) v) r13 = pointwise (+) u v
             \<and> (\<forall>y. valid y \<and> shape y = [n, n]
                      \<and> mm (pointwise (+) (negative u) v) y = pointwise (+) u v \<longrightarrow> y = r13))"
proof -
  note h = pade13_unfold [OF vA sA]
  have inner: "expm_inner E A A2 A4 A6 pade_b = Inr (u1, u2, v1, v2)"
    and p: "pade13 cupy_linalg A = cupy_solve (pointwise (+) (negative u) v) (pointwise (+) u v)"
    and vl: "valid (pointwise (+) (negative u) v)"
    and sl: "shape (pointwise (+) (negative u) v) = [n, n]"
    and vr: "valid (pointwise (+) u v)" and sr: "shape (pointwise (+) u v) = [n, n]"
    using h unfolding A2_def A4_def A6_def E_def b_def u1_def u2_def v1_def v2_def u_def v_def
    by blast+
  have q: "pade13 cupy_linalg A = solve cupy_linalg (pointwise (+) (negative u) v) (pointwise (+) u v)"
    using p by (simp add: cupy_linalg_def)
  have r: "valid r13 \<and> shape r13 = [n, n]
      \<and> mm (pointwise (+) (negative u) v) r13 = pointwise (+) u v
      \<and> (\<forall>y. valid y \<and> shape y = [n, n]
               \<and> mm (pointwise (+) (negative u) v) y = pointwise (+) u v \<longrightarrow> y = r13)"
    if "pade13 cupy_linalg A = Inr r13" for r13
    using that unfolding p by (rule cupy_solve_sound [OF vl sl vr sr])
  show ?thesis
    using inner q r by blast
qed

theorem pade13_parts_witness:
  "pade13 cupy_linalg \<lparr>shape = [2, 2], data = [0, 1, 0, 0 :: real]\<rparr>
     = Inr \<lparr>shape = [2, 2], data = [1, 1, 0, 1]\<rparr>
   \<and> mm \<lparr>shape = [2, 2], data = [64764752532480000, - 32382376266240000, 0, 64764752532480000 :: real]\<rparr>
        \<lparr>shape = [2, 2], data = [1, 1, 0, 1]\<rparr>
     = \<lparr>shape = [2, 2], data = [64764752532480000, 32382376266240000, 0, 64764752532480000]\<rparr>"
proof -
  let ?A = "\<lparr>shape = [2, 2], data = [0, 1, 0, 0 :: real]\<rparr>"
  let ?Z = "\<lparr>shape = [2, 2], data = [0, 0, 0, 0 :: real]\<rparr>"
  let ?L = "\<lparr>shape = [2, 2], data = [64764752532480000, - 32382376266240000, 0, 64764752532480000 :: real]\<rparr>"
  let ?R = "\<lparr>shape = [2, 2], data = [64764752532480000, 32382376266240000, 0, 64764752532480000 :: real]\<rparr>"
  let ?X = "\<lparr>shape = [2, 2], data = [1, 1, 0, 1 :: real]\<rparr>"
  have mm_eval: "mm \<lparr>shape = [2, 2], data = [a, b, c, d]\<rparr> \<lparr>shape = [2, 2], data = [e, f, g, h]\<rparr>
      = \<lparr>shape = [2, 2], data = [a * e + b * g, a * f + b * h, c * e + d * g, c * f + d * h]\<rparr>"
    for a b c d e f g h :: real
    by (simp add: mm_def tabulate2_def at2_def eval_nat_numeral)
  have pw: "pointwise (+) \<lparr>shape = [2, 2], data = [a, b, c, d]\<rparr> \<lparr>shape = [2, 2], data = [e, f, g, h]\<rparr>
      = \<lparr>shape = [2, 2], data = [a + e, b + f, c + g, d + h]\<rparr>"
    for a b c d e f g h :: real
    by (simp add: pointwise_def)
  have sm: "scalar_mul k \<lparr>shape = [2, 2], data = [a, b, c, d]\<rparr>
      = \<lparr>shape = [2, 2], data = [k * a, k * b, k * c, k * d]\<rparr>"
    for k a b c d :: real
    by (simp add: scalar_mul_def mapa_def)
  have ng: "negative \<lparr>shape = [2, 2], data = [a, b, c, d]\<rparr>
      = \<lparr>shape = [2, 2], data = [- a, - b, - c, - d]\<rparr>"
    for a b c d :: real
    by (simp add: negative_def mapa_def)
  have ey: "cupy_eye 2 = \<lparr>shape = [2, 2], data = [1, 0, 0, 1 :: real]\<rparr>"
    by (simp add: cupy_eye_def tabulate2_def eval_nat_numeral)
  have b: "pade_b ! 0 = 64764752532480000" "pade_b ! 1 = 32382376266240000"
    by (simp_all add: pade_b_def)
  have v: "valid ?A" "shape ?A = [2, 2]" by (simp_all add: valid_def)
  have s: "cupy_solve ?L ?R = Inr ?X"
    by (simp add: cupy_solve_def rows_def block_def of_rows_def eval_nat_numeral vsub_def
        vscale_def vadd_def)
  note t = pade13_parts [OF v, unfolded mm_eval ey sm pw ng]
  have t': "pade13 cupy_linalg ?A = solve cupy_linalg ?L ?R
      \<and> (\<forall>r13. pade13 cupy_linalg ?A = Inr r13 \<longrightarrow> mm ?L r13 = ?R)"
    using t b by simp
  then have p: "pade13 cupy_linalg ?A = Inr ?X" using s by (simp add: cupy_linalg_def)
  with t' have "mm ?L ?X = ?R" by blast
  with p show ?thesis by simp
qed

subsection \<open>The exponential of the zero matrix\<close>

lemma scalar_mul_tabulate2: "scalar_mul c (tabulate2 r k f) = tabulate2 r k (\<lambda>i j. c * f i j)"
  by (simp add: scalar_mul_def mapa_tabulate2)

lemma scalar_div_tabulate2: "scalar_div (tabulate2 r k f) c = tabulate2 r k (\<lambda>i j. f i j / c)"
  by (simp add: scalar_div_def mapa_tabulate2)

lemma negative_tabulate2: "negative (tabulate2 r k f) = tabulate2 r k (\<lambda>i j. - f i j)"
  by (simp add: negative_def mapa_tabulate2)

lemma pointwise_tabulate2s:
  "pointwise f (tabulate2 r c g) (tabulate2 r c h) = tabulate2 r c (\<lambda>i j. f (g i j) (h i j))"
proof -
  have "pointwise f (tabulate2 r c g) (tabulate2 r c h)
      = tabulate2 r c (\<lambda>i j. f (at2 (tabulate2 r c g) i j) (at2 (tabulate2 r c h) i j))"
    by (rule pointwise_tabulate2) simp_all
  also have "\<dots> = tabulate2 r c (\<lambda>i j. f (g i j) (h i j))"
    by (rule tabulate2_cong) (simp add: at2_tabulate2)
  finally show ?thesis .
qed

lemma sum_list_delta:
  fixes g :: "nat \<Rightarrow> 'a::semiring_1"
  assumes "i < n"
  shows "(\<Sum>l\<leftarrow>[0..<n]. (if i = l then c else 0) * g l) = c * g i"
proof -
  have "(\<Sum>l\<leftarrow>[0..<n]. (if i = l then c else 0) * g l)
      = (\<Sum>l\<in>{0..<n}. (if i = l then c else 0) * g l)"
    by (simp add: interv_sum_list_conv_sum_set_nat)
  also have "\<dots> = (\<Sum>l\<in>{0..<n}. if l = i then c * g l else 0)"
    by (rule sum.cong) auto
  also have "\<dots> = c * g i" using assms by simp
  finally show ?thesis .
qed

lemma mm_eye_left:
  fixes f :: "nat \<Rightarrow> nat \<Rightarrow> 'a::semiring_1"
  shows "mm (tabulate2 n n (\<lambda>i j. if i = j then c else 0)) (tabulate2 n m f)
       = tabulate2 n m (\<lambda>i j. c * f i j)"
  unfolding mm_tabulate2 by (rule tabulate2_cong) (simp add: sum_list_delta)

lemma mm_zero_left:
  fixes f :: "nat \<Rightarrow> nat \<Rightarrow> 'a::semiring_0"
  shows "mm (tabulate2 n k (\<lambda>i j. 0)) (tabulate2 k m f) = tabulate2 n m (\<lambda>i j. 0)"
  unfolding mm_tabulate2 by simp

lemma diag_tabulate2:
  "diag (tabulate2 n n f) = Inr \<lparr>shape = [n], data = map (\<lambda>i. f i i) [0..<n]\<rparr>"
proof -
  have "map (\<lambda>i. at2 (tabulate2 n n f) i i) [0..<n] = map (\<lambda>i. f i i) [0..<n]"
    by (rule map_cong [OF refl]) (simp add: at2_tabulate2)
  then show ?thesis by (simp add: diag_def)
qed

lemma cupy_norm1_zero:
  assumes "0 < n"
  shows "cupy_norm1 (tabulate2 n n (\<lambda>i j. 0 :: 'a::real_normed_vector)) = Inr 0"
proof -
  have "map (\<lambda>j. \<Sum>i\<leftarrow>[0..<n]. norm (at2 (tabulate2 n n (\<lambda>i j. 0 :: 'a)) i j)) [0..<n]
      = map (\<lambda>j. 0) [0..<n]"
  proof (rule map_cong [OF refl])
    fix j assume "j \<in> set [0..<n]"
    then have j: "j < n" by simp
    have h: "map (\<lambda>i. norm (at2 (tabulate2 n n (\<lambda>i j. 0 :: 'a)) i j)) [0..<n] = map (\<lambda>i. 0) [0..<n]"
      by (rule map_cong [OF refl]) (simp add: at2_tabulate2 j)
    show "(\<Sum>i\<leftarrow>[0..<n]. norm (at2 (tabulate2 n n (\<lambda>i j. 0 :: 'a)) i j)) = 0"
      unfolding h by simp
  qed
  then have "cupy_norm1 (tabulate2 n n (\<lambda>i j. 0 :: 'a)) = Inr (Max (set (map (\<lambda>j. 0 :: real) [0..<n])))"
    using assms by (simp add: cupy_norm1_def)
  moreover have "set (map (\<lambda>j. 0 :: real) [0..<n]) = {0}" using assms by auto
  ultimately show ?thesis by simp
qed


lemma pade13_zero_solve:
  fixes Z :: "'a::{real_normed_field, banach} ndarray"
  assumes Z: "Z = tabulate2 n n (\<lambda>i j. 0)"
  shows "pade13 cupy_linalg Z
       = cupy_solve (tabulate2 n n (\<lambda>i j. if i = j then of_real (pade_b ! 0) else 0))
                    (tabulate2 n n (\<lambda>i j. if i = j then of_real (pade_b ! 0) else 0))"
proof -
  have vZ: "valid Z" and sZ: "shape Z = [n, n]" by (simp_all add: Z)
  note h = pade13_unfold [OF vZ sZ]
  have e: "tabulate2 n n (\<lambda>i j. c * (if i = j then 1 else 0))
      = tabulate2 n n (\<lambda>i j. if i = j then c else 0)" for c :: 'a
    by (rule tabulate2_cong) simp
  show ?thesis
    using h
    by (simp add: Z cupy_eye_def mm_zero_left scalar_mul_tabulate2 pointwise_tabulate2s
        negative_tabulate2 e)
qed

lemma cupy_solve_scaled_eye:
  fixes c :: "'a::field"
  assumes c: "c \<noteq> 0" and n: "0 < n"
  shows "cupy_solve (tabulate2 n n (\<lambda>i j. if i = j then c else 0))
                    (tabulate2 n n (\<lambda>i j. if i = j then c else 0))
       = Inr (tabulate2 n n (\<lambda>i j. if i = j then 1 else 0))"
proof (rule cupy_solve_complete [where n = n and m = n])
  let ?B = "tabulate2 n n (\<lambda>i j. if i = j then c else 0)"
  let ?E = "tabulate2 n n (\<lambda>i j. if i = j then 1 else (0::'a))"
  show "valid ?B" "shape ?B = [n, n]" "valid ?B" "shape ?B = [n, n]" "0 < n"
    "valid ?E" "shape ?E = [n, n]"
    using n by simp_all
  show "mm ?B ?E = ?B"
    unfolding mm_eye_left by (rule tabulate2_cong) simp
  fix y :: "'a ndarray"
  assume vy: "valid y" and sy: "shape y = [n, n]" and my: "mm ?B y = ?B"
  have y: "y = tabulate2 n n (at2 y)" using tabulate2_at2 [OF vy sy] by simp
  have "mm ?B (tabulate2 n n (at2 y)) = ?B" using my y by simp
  then have "tabulate2 n n (\<lambda>i j. c * at2 y i j) = ?B" by (simp only: mm_eye_left)
  then have "\<forall>i < n. \<forall>j < n. c * at2 y i j = (if i = j then c else 0)"
    by (simp only: tabulate2_eq_iff)
  then have "\<forall>i < n. \<forall>j < n. at2 y i j = (if i = j then 1 else 0)"
    using c by (auto split: if_splits)
  then have "tabulate2 n n (at2 y) = ?E" by (simp only: tabulate2_eq_iff)
  then show "y = ?E" using y by simp
qed

lemma reduce_norm_zero:
  fixes Z :: "'a::{real_normed_field, banach} ndarray"
  assumes Z: "Z = tabulate2 n n (\<lambda>i j. 0)"
  shows "reduce_norm cupy_linalg Z = Inr (0, Z)"
proof -
  have sh: "shape_at Z 0 = Inr n" by (simp add: Z shape_at_def)
  have d: "diag Z = Inr \<lparr>shape = [n], data = map (\<lambda>i. 0) [0..<n]\<rparr>"
    unfolding Z by (rule diag_tabulate2)
  have mu: "asum \<lparr>shape = [n], data = map (\<lambda>i. 0 :: 'a) [0..<n]\<rparr> / of_nat n = 0"
    by (simp add: asum_def)
  have e: "scalar_mul 0 (cupy_eye n) = Z"
    by (simp add: Z cupy_eye_def scalar_mul_tabulate2)
  have vZ: "valid Z" by (simp add: Z)
  have "pointwise (-) Z Z = Z" by (simp add: Z pointwise_tabulate2s)
  then have s: "subtract Z Z = Inr Z"
    using subtract_same [OF vZ vZ refl] by simp
  show ?thesis
    by (simp add: reduce_norm_def sh d Let_def mu cupy_linalg_def e s)
qed

lemma scale_factor_zero:
  fixes Z :: "'a::{real_normed_field, banach} ndarray"
  assumes Z: "Z = tabulate2 n n (\<lambda>i j. 0)" and n: "0 < n"
  shows "scale_factor cupy_linalg Z = Inr (1, Z)"
proof -
  have nrm: "cupy_norm1 Z = Inr 0" unfolding Z using n by (rule cupy_norm1_zero)
  have s: "scale_exponent 0 = 1" by (simp add: scale_exponent_def th13_def)
  have d: "scalar_div Z 2 = Z" by (simp add: Z scalar_div_tabulate2)
  show ?thesis
    by (simp add: scale_factor_def cupy_linalg_def nrm s Let_def d)
qed

lemma squaring_once_eye:
  "squaring cupy_linalg (py_range 1) (cupy_eye n :: 'a::{real_normed_field, banach} ndarray)
     = Inr (cupy_eye n)"
proof -
  have r: "py_range 1 = [0]" by (simp add: py_range_def)
  have m: "mm (cupy_eye n) (cupy_eye n) = (cupy_eye n :: 'a ndarray)"
    unfolding cupy_eye_def mm_eye_left by (rule tabulate2_cong) simp
  have "cupy_matmul (cupy_eye n) (cupy_eye n) = Inr (cupy_eye n :: 'a ndarray)"
    using cupy_matmul_2d [of "cupy_eye n :: 'a ndarray" n n "cupy_eye n" n] m by simp
  then show ?thesis by (simp add: r cupy_linalg_def)
qed

text \<open>
  Claim C3. For every \<open>n\<close>, expm of the \<open>n\<close> by \<open>n\<close> zero matrix is the \<open>n\<close> by \<open>n\<close> identity:
  the trace shift is 0, the shifted and scaled matrix stays zero, the Pade step is the solve of
  \<open>(b0 E) r13 = b0 E\<close>, which gives the identity, one squaring keeps it, and the final factor
  is \<open>exp 0 = 1\<close>. For \<open>n = 0\<close> the early return gives the 0 by 0 array, which is the 0 by 0
  identity.
\<close>

theorem expm_zeros:
  "expm cupy_linalg (zeros [n, n] :: 'a::{real_normed_field, banach} ndarray) = Inr (cupy_eye n)"
proof (cases "n = 0")
  case True
  then show ?thesis by (simp add: expm_def asize_def zeros_def cupy_eye_def tabulate2_def)
next
  case False
  then have n: "0 < n" by simp
  define Z :: "'a ndarray" where "Z = tabulate2 n n (\<lambda>i j. 0)"
  have z: "zeros [n, n] = Z" by (simp add: Z_def zeros_tabulate2)
  have sz: "asize Z \<noteq> 0" using n by (simp add: asize_def Z_def)
  have b0: "(of_real (pade_b ! 0) :: 'a) \<noteq> 0" by (simp add: pade_b_def)
  have pd: "pade13 cupy_linalg Z = Inr (cupy_eye n)"
    using pade13_zero_solve [OF Z_def] cupy_solve_scaled_eye [OF b0 n]
    by (simp add: cupy_eye_def)
  have f: "scalar_mul (scalar_exp cupy_linalg 0) (cupy_eye n) = (cupy_eye n :: 'a ndarray)"
    by (simp add: cupy_linalg_def cupy_eye_def scalar_mul_tabulate2)
  show ?thesis
    unfolding z
    by (simp add: expm_def sz reduce_norm_zero [OF Z_def] scale_factor_zero [OF Z_def n] pd
        squaring_once_eye f)
qed

theorem expm_zeros_witness:
  "expm cupy_linalg \<lparr>shape = [2, 2], data = [0, 0, 0, 0 :: real]\<rparr>
     = Inr \<lparr>shape = [2, 2], data = [1, 0, 0, 1]\<rparr>
   \<and> expm cupy_linalg \<lparr>shape = [1, 1], data = [0 :: complex]\<rparr>
     = Inr \<lparr>shape = [1, 1], data = [1]\<rparr>"
  using expm_zeros [of 2, where 'a = real] expm_zeros [of 1, where 'a = complex]
  by (simp add: zeros_def cupy_eye_def tabulate2_def eval_nat_numeral)

subsection \<open>cosm and sinm from expm\<close>

lemma pade13_shape:
  fixes A :: "'a::{real_normed_field, banach} ndarray"
  assumes vA: "valid A" and sA: "shape A = [n, n]" and r: "pade13 cupy_linalg A = Inr r"
  shows "valid r \<and> shape r = [n, n]"
proof -
  from pade13_unfold [OF vA sA] obtain L R where
    p: "pade13 cupy_linalg A = cupy_solve L R"
    and L: "valid L" "shape L = [n, n]" and R: "valid R" "shape R = [n, n]"
    by blast
  from r p have "cupy_solve L R = Inr r" by simp
  from cupy_solve_sound [OF L R this] show ?thesis by blast
qed

lemma squaring_shape:
  fixes x :: "'a::{real_normed_field, banach} ndarray"
  assumes "valid x" and "shape x = [n, n]" and "squaring cupy_linalg rng x = Inr y"
  shows "valid y \<and> shape y = [n, n]"
  using assms
proof (induction rng arbitrary: x)
  case Nil
  then show ?case by simp
next
  case (Cons k rng)
  have m: "matmul cupy_linalg x x = Inr (mm x x)"
    using cupy_matmul_2d [OF Cons.prems(2) Cons.prems(2)] by (simp add: cupy_linalg_def)
  have "squaring cupy_linalg rng (mm x x) = Inr y" using Cons.prems(3) m by simp
  moreover have "valid (mm x x)" "shape (mm x x) = [n, n]"
    using Cons.prems(2) by (simp_all add: shape_mm)
  ultimately show ?case using Cons.IH by blast
qed

lemma reduce_norm_square:
  fixes a :: "'a::{real_normed_field, banach} ndarray"
  assumes va: "valid a" and sa: "shape a = [n, n]"
  shows "\<exists>mu A. reduce_norm cupy_linalg a = Inr (mu, A) \<and> valid A \<and> shape A = [n, n]"
proof -
  have sh: "shape_at a 0 = Inr n" using sa by (simp add: shape_at_def)
  obtain d where d: "diag a = Inr d" using sa by (simp add: diag_def)
  define mu where "mu = asum d / of_nat n"
  define A where "A = pointwise (-) a (scalar_mul mu (cupy_eye n))"
  have s: "subtract a (scalar_mul mu (cupy_eye n)) = Inr A"
    unfolding A_def using va sa by (intro subtract_same) simp_all
  have "reduce_norm cupy_linalg a = Inr (mu, A)"
    by (simp add: reduce_norm_def sh d Let_def cupy_linalg_def mu_def [symmetric] s)
  moreover have "valid A" "shape A = [n, n]"
    using va sa by (simp_all add: A_def valid_pointwise)
  ultimately show ?thesis by blast
qed

lemma scale_factor_square:
  fixes A :: "'a::{real_normed_field, banach} ndarray"
  assumes vA: "valid A" and sA: "shape A = [n, n]" and n: "0 < n"
  shows "\<exists>s A'. scale_factor cupy_linalg A = Inr (s, A') \<and> valid A' \<and> shape A' = [n, n]"
proof -
  obtain nrm where nrm: "cupy_norm1 A = Inr nrm" using sA n by (simp add: cupy_norm1_def)
  have "scale_factor cupy_linalg A
      = Inr (scale_exponent nrm, scalar_div A (2 powi scale_exponent nrm))"
    by (simp add: scale_factor_def cupy_linalg_def nrm Let_def)
  moreover have "valid (scalar_div A (2 powi scale_exponent nrm))"
    "shape (scalar_div A (2 powi scale_exponent nrm)) = [n, n]"
    using vA sA by simp_all
  ultimately show ?thesis by blast
qed

lemma expm_shape:
  fixes a :: "'a::{real_normed_field, banach} ndarray"
  assumes va: "valid a" and sa: "shape a = [n, n]" and x: "expm cupy_linalg a = Inr x"
  shows "valid x \<and> shape x = [n, n]"
proof (cases "n = 0")
  case True
  then have "asize a = 0" using sa by (simp add: asize_def)
  then have "x = zeros [0, 0]" using x by (simp add: expm_def)
  then show ?thesis using True by (simp add: zeros_def valid_def)
next
  case False
  then have n: "0 < n" by simp
  have sz: "asize a \<noteq> 0" using sa n by (simp add: asize_def)
  obtain mu A where rn: "reduce_norm cupy_linalg a = Inr (mu, A)"
    and A: "valid A" "shape A = [n, n]"
    using reduce_norm_square [OF va sa] by blast
  obtain s A' where sf: "scale_factor cupy_linalg A = Inr (s, A')"
    and A': "valid A'" "shape A' = [n, n]"
    using scale_factor_square [OF A n] by blast
  have e: "expm cupy_linalg a
      = bindE (pade13 cupy_linalg A') (\<lambda>r13.
        bindE (squaring cupy_linalg (py_range s) r13) (\<lambda>x.
        Inr (scalar_mul (scalar_exp cupy_linalg mu) x)))"
    by (simp add: expm_def sz rn sf)
  from x e obtain r13 where p: "pade13 cupy_linalg A' = Inr r13"
    by (cases "pade13 cupy_linalg A'") simp_all
  have r: "valid r13" "shape r13 = [n, n]" using pade13_shape [OF A' p] by simp_all
  from x e p obtain y where q: "squaring cupy_linalg (py_range s) r13 = Inr y"
    by (cases "squaring cupy_linalg (py_range s) r13") simp_all
  have y: "valid y" "shape y = [n, n]" using squaring_shape [OF r q] by simp_all
  have "x = scalar_mul (scalar_exp cupy_linalg mu) y" using x e p q by simp
  then show ?thesis using y by simp
qed

text \<open>
  Claim C6. For a square complex matrix \<open>a\<close>, with \<open>X = expm(i a)\<close> and \<open>Y = expm(-i a)\<close>,
  cosm returns \<open>0.5 (X + Y)\<close> and sinm returns \<open>-0.5 (X - Y)\<close>; for a real matrix, with
  \<open>Z = expm(i a)\<close>, cosm returns the real part of \<open>Z\<close> and sinm its imaginary part. A result
  is a complex array exactly when the input is one.
\<close>

theorem cosm_sinm_formulas:
  fixes a :: "complex ndarray" and r :: "real ndarray"
  shows "(valid a \<and> shape a = [n, n]
          \<and> expm cupy_linalg (scalar_mul \<i> a) = Inr X
          \<and> expm cupy_linalg (scalar_mul (- \<i>) a) = Inr Y \<longrightarrow>
            cosm cupy_linalg (ComplexArray a)
              = Inr (ComplexArray (scalar_mul (1 / 2) (pointwise (+) X Y)))
          \<and> sinm cupy_linalg (ComplexArray a)
              = Inr (ComplexArray (scalar_mul (- (1 / 2)) (pointwise (-) X Y))))
       \<and> (expm cupy_linalg (mapa (\<lambda>t. \<i> * complex_of_real t) r) = Inr Z \<longrightarrow>
            cosm cupy_linalg (RealArray r) = Inr (RealArray (mapa Re Z))
          \<and> sinm cupy_linalg (RealArray r) = Inr (RealArray (mapa Im Z)))
       \<and> (cosm cupy_linalg x = Inr c \<longrightarrow> iscomplexobj c = iscomplexobj x)
       \<and> (sinm cupy_linalg x = Inr s \<longrightarrow> iscomplexobj s = iscomplexobj x)"
proof (intro conjI impI)
  assume h: "valid a \<and> shape a = [n, n]
          \<and> expm cupy_linalg (scalar_mul \<i> a) = Inr X
          \<and> expm cupy_linalg (scalar_mul (- \<i>) a) = Inr Y"
  then have va: "valid a" and sa: "shape a = [n, n]"
    and X: "expm cupy_linalg (scalar_mul \<i> a) = Inr X"
    and Y: "expm cupy_linalg (scalar_mul (- \<i>) a) = Inr Y"
    by simp_all
  have vX: "valid X" "shape X = [n, n]"
    using expm_shape [OF _ _ X] va sa by simp_all
  have vY: "valid Y" "shape Y = [n, n]"
    using expm_shape [OF _ _ Y] va sa by simp_all
  have ad: "add X Y = Inr (pointwise (+) X Y)" using vX vY by (simp add: add_same)
  have sb: "subtract X Y = Inr (pointwise (-) X Y)" using vX vY by (simp add: subtract_same)
  show "cosm cupy_linalg (ComplexArray a)
      = Inr (ComplexArray (scalar_mul (1 / 2) (pointwise (+) X Y)))"
    by (simp add: cosm_def iscomplexobj_def cmul_def X Y ad)
  show "sinm cupy_linalg (ComplexArray a)
      = Inr (ComplexArray (scalar_mul (- (1 / 2)) (pointwise (-) X Y)))"
    by (simp add: sinm_def iscomplexobj_def cmul_def X Y sb)
next
  assume Z: "expm cupy_linalg (mapa (\<lambda>t. \<i> * complex_of_real t) r) = Inr Z"
  show "cosm cupy_linalg (RealArray r) = Inr (RealArray (mapa Re Z))"
    by (simp add: cosm_def iscomplexobj_def cmul_def Z)
  show "sinm cupy_linalg (RealArray r) = Inr (RealArray (mapa Im Z))"
    by (simp add: sinm_def iscomplexobj_def cmul_def Z)
next
  assume "cosm cupy_linalg x = Inr c"
  then show "iscomplexobj c = iscomplexobj x"
    by (auto simp add: cosm_def bindE_def iscomplexobj_def split: if_splits sum.splits array.splits)
next
  assume "sinm cupy_linalg x = Inr s"
  then show "iscomplexobj s = iscomplexobj x"
    by (auto simp add: sinm_def bindE_def iscomplexobj_def split: if_splits sum.splits array.splits)
qed

lemma mm_2x2:
  "mm \<lparr>shape = [2, 2], data = [a, b, c, d]\<rparr> \<lparr>shape = [2, 2], data = [e, f, g, h]\<rparr>
     = \<lparr>shape = [2, 2], data = [a * e + b * g, a * f + b * h, c * e + d * g, c * f + d * h]\<rparr>"
  for a :: "'a::semiring_0"
  by (simp add: mm_def tabulate2_def at2_def eval_nat_numeral)

lemma pointwise_2x2:
  "pointwise f \<lparr>shape = [2, 2], data = [a, b, c, d]\<rparr> \<lparr>shape = [2, 2], data = [e, g, h, k]\<rparr>
     = \<lparr>shape = [2, 2], data = [f a e, f b g, f c h, f d k]\<rparr>"
  by (simp add: pointwise_def)

lemma mapa_2x2:
  "mapa f \<lparr>shape = [2, 2], data = [a, b, c, d]\<rparr> = \<lparr>shape = [2, 2], data = [f a, f b, f c, f d]\<rparr>"
  by (simp add: mapa_def)

lemma cupy_eye_2: "cupy_eye 2 = \<lparr>shape = [2, 2], data = [1, 0, 0, 1]\<rparr>"
  by (simp add: cupy_eye_def tabulate2_def eval_nat_numeral)

lemma cupy_solve_upper_2x2:
  fixes p :: "'a::field"
  assumes "p \<noteq> 0"
  shows "cupy_solve \<lparr>shape = [2, 2], data = [p, - q, 0, p]\<rparr> \<lparr>shape = [2, 2], data = [p, q, 0, p]\<rparr>
       = Inr \<lparr>shape = [2, 2], data = [1, 2 * q / p, 0, 1]\<rparr>"
  using assms
  by (simp add: cupy_solve_def rows_def block_def of_rows_def eval_nat_numeral vsub_def
      vscale_def vadd_def field_simps)

lemma expm_nilpotent:
  fixes z :: complex
  assumes z: "norm z = 1"
  shows "expm cupy_linalg \<lparr>shape = [2, 2], data = [0, z, 0, 0]\<rparr>
       = Inr \<lparr>shape = [2, 2], data = [1, z, 0, 1]\<rparr>"
proof -
  let ?M = "\<lparr>shape = [2, 2], data = [0, z, 0, 0]\<rparr>"
  let ?A = "\<lparr>shape = [2, 2], data = [0, z / 2, 0, 0]\<rparr>"
  let ?X = "\<lparr>shape = [2, 2], data = [1, z / 2, 0, 1]\<rparr>"
  have sz: "asize ?M \<noteq> 0" by (simp add: asize_def)
  have d: "diag ?M = Inr \<lparr>shape = [2], data = [0, 0]\<rparr>"
    by (simp add: diag_def at2_def eval_nat_numeral)
  have sb: "subtract ?M \<lparr>shape = [2, 2], data = [0, 0, 0, 0]\<rparr> = Inr ?M"
    using subtract_same [of ?M "\<lparr>shape = [2, 2], data = [0, 0, 0, 0]\<rparr>"]
    by (simp add: valid_def pointwise_2x2)
  have rn: "reduce_norm cupy_linalg ?M = Inr (0, ?M)"
    by (simp add: reduce_norm_def shape_at_def d asum_def cupy_linalg_def cupy_eye_2
        scalar_mul_def mapa_2x2 sb)
  have nrm: "cupy_norm1 ?M = Inr 1"
    by (simp add: cupy_norm1_def at2_def eval_nat_numeral z)
  have se: "scale_exponent 1 = 1" by (simp add: scale_exponent_def th13_def)
  have sf: "scale_factor cupy_linalg ?M = Inr (1, ?A)"
    by (simp add: scale_factor_def cupy_linalg_def nrm se scalar_div_def mapa_2x2)
  have v: "valid ?A" "shape ?A = [2, 2]" by (simp_all add: valid_def)
  have b: "pade_b ! 0 = 64764752532480000" "pade_b ! 1 = 32382376266240000"
    by (simp_all add: pade_b_def)
  note t = pade13_unfold [OF v, unfolded mm_2x2 cupy_eye_2 scalar_mul_def negative_def mapa_2x2
      pointwise_2x2]
  have "pade13 cupy_linalg ?A
      = cupy_solve \<lparr>shape = [2, 2], data = [64764752532480000, - (16191188133120000 * z), 0, 64764752532480000]\<rparr>
          \<lparr>shape = [2, 2], data = [64764752532480000, 16191188133120000 * z, 0, 64764752532480000]\<rparr>"
    using t b by simp
  then have pd: "pade13 cupy_linalg ?A = Inr ?X"
    using cupy_solve_upper_2x2 [of "64764752532480000 :: complex" "16191188133120000 * z"]
    by simp
  have sq: "squaring cupy_linalg (py_range 1) ?X = Inr \<lparr>shape = [2, 2], data = [1, z, 0, 1]\<rparr>"
    by (simp add: py_range_def cupy_linalg_def cupy_matmul_def mm_2x2)
  show ?thesis
    by (simp add: expm_def sz rn sf pd sq) (simp add: cupy_linalg_def scalar_mul_def mapa_2x2)
qed

text \<open>
  The witness is the nilpotent matrix \<open>[[0, 1], [0, 0]]\<close>, for which \<open>expm(i a)\<close> is
  \<open>[[1, i], [0, 1]]\<close>. The complex formula of sinm has the factor \<open>-0.5\<close>, not \<open>-0.5 i\<close>: on
  the complex array it returns \<open>[[0, -i], [0, 0]]\<close>, and on the real array with the same
  entries \<open>[[0, 1], [0, 0]]\<close>.
\<close>

theorem cosm_sinm_formulas_witness:
  "cosm cupy_linalg (ComplexArray \<lparr>shape = [2, 2], data = [0, 1, 0, 0]\<rparr>)
     = Inr (ComplexArray \<lparr>shape = [2, 2], data = [1, 0, 0, 1]\<rparr>)
   \<and> sinm cupy_linalg (ComplexArray \<lparr>shape = [2, 2], data = [0, 1, 0, 0]\<rparr>)
     = Inr (ComplexArray \<lparr>shape = [2, 2], data = [0, - \<i>, 0, 0]\<rparr>)
   \<and> cosm cupy_linalg (RealArray \<lparr>shape = [2, 2], data = [0, 1, 0, 0]\<rparr>)
     = Inr (RealArray \<lparr>shape = [2, 2], data = [1, 0, 0, 1]\<rparr>)
   \<and> sinm cupy_linalg (RealArray \<lparr>shape = [2, 2], data = [0, 1, 0, 0]\<rparr>)
     = Inr (RealArray \<lparr>shape = [2, 2], data = [0, 1, 0, 0]\<rparr>)"
proof -
  let ?a = "\<lparr>shape = [2, 2], data = [0, 1, 0, 0 :: complex]\<rparr>"
  let ?r = "\<lparr>shape = [2, 2], data = [0, 1, 0, 0 :: real]\<rparr>"
  let ?X = "\<lparr>shape = [2, 2], data = [1, \<i>, 0, 1]\<rparr>"
  let ?Y = "\<lparr>shape = [2, 2], data = [1, - \<i>, 0, 1]\<rparr>"
  have v: "valid ?a" "shape ?a = [2, 2]" by (simp_all add: valid_def)
  have X: "expm cupy_linalg (scalar_mul \<i> ?a) = Inr ?X"
    using expm_nilpotent [of \<i>] by (simp add: scalar_mul_def mapa_2x2)
  have Y: "expm cupy_linalg (scalar_mul (- \<i>) ?a) = Inr ?Y"
    using expm_nilpotent [of "- \<i>"] by (simp add: scalar_mul_def mapa_2x2)
  have Z: "expm cupy_linalg (mapa (\<lambda>t. \<i> * complex_of_real t) ?r) = Inr ?X"
    using expm_nilpotent [of \<i>] by (simp add: mapa_2x2)
  from cosm_sinm_formulas [of ?a 2 ?X ?Y ?r ?X] v X Y Z
  show ?thesis
    by (simp add: scalar_mul_def mapa_2x2 pointwise_2x2)
qed

subsection \<open>A single column is broadcast\<close>

text \<open>
  A non-square input that expm does not refuse: a 2 by 1 column is broadcast against
  \<^verbatim>\<open>eye(2)\<close> in line 95, and the computation continues with a 2 by 2 matrix. This is why
  the failure of non-square inputs is stated for inputs with at least two columns.
\<close>

lemma expm_single_column:
  "expm cupy_linalg \<lparr>shape = [2, 1], data = [0, 0 :: real]\<rparr>
     = Inr \<lparr>shape = [2, 2], data = [1, 0, 0, 1]\<rparr>"
proof -
  let ?a = "\<lparr>shape = [2, 1], data = [0, 0 :: real]\<rparr>"
  define Z :: "real ndarray" where "Z = tabulate2 2 2 (\<lambda>i j. 0)"
  have Z: "Z = \<lparr>shape = [2, 2], data = [0, 0, 0, 0]\<rparr>"
    by (simp add: Z_def tabulate2_def eval_nat_numeral)
  have sz: "asize ?a \<noteq> 0" by (simp add: asize_def)
  have d: "diag ?a = Inr \<lparr>shape = [1], data = [0]\<rparr>"
    by (simp add: diag_def at2_def)
  have sb: "subtract ?a \<lparr>shape = [2, 2], data = [0, 0, 0, 0]\<rparr> = Inr Z"
    by (simp add: subtract_def elementwise_def ndim_def pad_shape_def block_def Z
        eval_nat_numeral)
  have rn: "reduce_norm cupy_linalg ?a = Inr (0, Z)"
    by (simp add: reduce_norm_def shape_at_def d asum_def cupy_linalg_def cupy_eye_2
        scalar_mul_def mapa_2x2 sb del: One_nat_def)
  have b0: "(of_real (pade_b ! 0) :: real) \<noteq> 0" by (simp add: pade_b_def)
  have pd: "pade13 cupy_linalg Z = Inr (cupy_eye 2)"
    using pade13_zero_solve [OF Z_def] cupy_solve_scaled_eye [OF b0, of 2]
    by (simp add: cupy_eye_def)
  have f: "scalar_mul (scalar_exp cupy_linalg 0) (cupy_eye 2) = (cupy_eye 2 :: real ndarray)"
    by (simp add: cupy_linalg_def cupy_eye_def scalar_mul_tabulate2)
  have "expm cupy_linalg ?a = Inr (cupy_eye 2)"
    using scale_factor_zero [OF Z_def]
    by (simp add: expm_def sz rn pd squaring_once_eye f del: One_nat_def)
  then show ?thesis by (simp add: cupy_eye_2)
qed

subsection \<open>The scale exponent and the squaring loop inside expm\<close>







end
